theory Spec2Isabelle
  imports Main
begin

section \<open>Byte strings\<close>

text \<open>
  The extension works on Python \<open>bytes\<close> throughout.  A byte string is a \<open>string\<close>
  (a list of 8-bit characters).  The functions of this section are the methods of
  \<open>bytes\<close> that the source calls, with the behaviour they have on bytes: white space
  is the six ASCII characters space, tab, line feed, vertical tab, form feed and
  carriage return, and a line ends at a line feed, a carriage return, or the pair
  carriage return, line feed.
\<close>

abbreviation LF :: char where "LF \<equiv> CHR 0x0A"
abbreviation CR :: char where "CR \<equiv> CHR 0x0D"
abbreviation TAB :: char where "TAB \<equiv> CHR 0x09"

definition is_space :: "char \<Rightarrow> bool" where
  "is_space c \<longleftrightarrow>
     c = CHR 0x20 \<or> c = CHR 0x09 \<or> c = CHR 0x0A \<or> c = CHR 0x0B \<or> c = CHR 0x0C \<or> c = CHR 0x0D"

definition is_eol :: "char \<Rightarrow> bool" where
  "is_eol c \<longleftrightarrow> c = LF \<or> c = CR"

fun startswith :: "string \<Rightarrow> string \<Rightarrow> bool" where
  "startswith s [] = True"
| "startswith [] (p # ps) = False"
| "startswith (c # cs) (p # ps) = (c = p \<and> startswith cs ps)"

definition removeprefix :: "string \<Rightarrow> string \<Rightarrow> string" where
  "removeprefix s p = (if startswith s p then drop (length p) s else s)"

definition lstrip :: "string \<Rightarrow> string" where
  "lstrip s = dropWhile is_space s"

definition rstrip :: "string \<Rightarrow> string" where
  "rstrip s = rev (dropWhile is_space (rev s))"

definition strip :: "string \<Rightarrow> string" where
  "strip s = lstrip (rstrip s)"

definition rstrip_chars :: "string \<Rightarrow> string \<Rightarrow> string" where
  \<comment> \<open>\<open>s.rstrip(chars)\<close>\<close>
  "rstrip_chars s chars = rev (dropWhile (\<lambda>c. c \<in> set chars) (rev s))"

definition last_bytes :: "nat \<Rightarrow> string \<Rightarrow> string" where
  \<comment> \<open>the slice \<open>s[-n:]\<close> for \<open>n > 0\<close>: the last \<open>n\<close> bytes, or all of \<open>s\<close> when it is shorter\<close>
  "last_bytes n s = drop (length s - n) s"

fun join :: "string \<Rightarrow> string list \<Rightarrow> string" where
  "join sep [] = []"
| "join sep [x] = x"
| "join sep (x # y # ys) = x @ sep @ join sep (y # ys)"

text \<open>
  \<open>s.splitlines(keepends=True)\<close>: the lines of \<open>s\<close>, each with its terminator; a
  last line without a terminator is a line too, and the empty string has no line.
\<close>

fun splitlines_keep :: "string \<Rightarrow> string list" where
  "splitlines_keep [] = []"
| "splitlines_keep (c # cs) =
     (if c = CR \<and> cs \<noteq> [] \<and> hd cs = LF then [CR, LF] # splitlines_keep (tl cs)
      else if is_eol c then [c] # splitlines_keep cs
      else (case splitlines_keep cs of
              [] \<Rightarrow> [[c]]
            | l # ls \<Rightarrow> (c # l) # ls))"

definition chomp :: "string \<Rightarrow> string" where
  \<comment> \<open>a line of \<open>splitlines_keep\<close> without its terminator\<close>
  "chomp l = takeWhile (\<lambda>c. \<not> is_eol c) l"

definition splitlines :: "string \<Rightarrow> string list" where
  \<comment> \<open>\<open>s.splitlines()\<close>\<close>
  "splitlines s = map chomp (splitlines_keep s)"

section \<open>PatchCodec: from a backend diff to a Quilt patch\<close>

text \<open>
  A \<open>bytes\<close> object never equals a \<open>str\<close> object in Python 3, whatever the two
  hold.  The comparison \<open>line[-2:] == '\r\n'\<close> of \<open>_hgdifftopatch\<close> has a \<open>str\<close>
  literal on its right.
\<close>

definition bytes_eq_str :: "string \<Rightarrow> string \<Rightarrow> bool" where
  "bytes_eq_str b s = False"

definition hgdifftopatch_line :: "string \<Rightarrow> string \<Rightarrow> string option" where
  \<comment> \<open>the body of the loop of \<open>_hgdifftopatch\<close>: \<open>None\<close> is \<open>continue\<close>, \<open>Some out\<close> is
      \<open>lines.append(out)\<close>\<close>
  "hgdifftopatch_line rootbasepath line =
     (if startswith line ''diff --git'' then None
      else if startswith line (''--- '' @ rootbasepath)
        then Some (''--- a'' @ removeprefix line (''--- '' @ rootbasepath))
      else if startswith line (''+++ '' @ rootbasepath)
        then Some (''+++ b'' @ removeprefix line (''+++ '' @ rootbasepath))
      else if startswith line ''@@ ''
        then (let ending = (if bytes_eq_str (last_bytes 2 line) [CR, LF]
                            then last_bytes 2 line else last_bytes 1 line)
              in Some (rstrip line @ ending))
      else Some line)"

definition hgdifftopatch :: "string \<Rightarrow> string \<Rightarrow> string" where
  "hgdifftopatch diff root =
     concat (List.map_filter (hgdifftopatch_line (rstrip_chars root ''/''))
               (splitlines_keep diff))"


section \<open>ChangesetClassifier\<close>

datatype error =
    Abort string
  | IndexError
  | ValueError
  | AssertionError
  | NameError string
  | IOError string
  | OtherError string

text \<open>
  \<open>PATCHDESC_RE\<close> is compiled from a bytes pattern with \<open>re.IGNORECASE\<close>: the letters
  of the pattern match in either case, ASCII letters only.
\<close>

definition lower :: "char \<Rightarrow> char" where
  "lower c =
     (case map_of (zip ''ABCDEFGHIJKLMNOPQRSTUVWXYZ'' ''abcdefghijklmnopqrstuvwxyz'') c of
        None \<Rightarrow> c
      | Some l \<Rightarrow> l)"

fun startswith_ci :: "string \<Rightarrow> string \<Rightarrow> bool" where
  "startswith_ci s [] = True"
| "startswith_ci [] (p # ps) = False"
| "startswith_ci (c # cs) (p # ps) = (lower c = lower p \<and> startswith_ci cs ps)"

text \<open>
  \<open>PATCHDESC_RE.fullmatch(line)\<close> for the pattern
  \<open>(do not submit\s*)?\[patch\]([^\r\n]+)\<close>.  The result is the pair of the two
  groups, group 1 being \<open>None\<close> when it did not take part in the match.  The
  matcher has one way to succeed: when the line begins with \<open>do not submit\<close> the
  group must take it (the alternative, \<open>[patch]\<close> at the start, needs a bracket
  there), \<open>\s*\<close> must take the whole run of white space (what follows must be a
  bracket), and group 2 must take all the rest of the line.
\<close>

definition patchdesc_fullmatch :: "string \<Rightarrow> (string option \<times> string) option" where
  "patchdesc_fullmatch line =
     (let (g1, rest) =
            (if startswith_ci line ''do not submit''
             then (Some (take 13 line @ takeWhile is_space (drop 13 line)),
                   dropWhile is_space (drop 13 line))
             else (None, line));
          g2 = drop 7 rest
      in if startswith_ci rest ''[patch]'' \<and> g2 \<noteq> [] \<and> filter is_eol g2 = []
         then Some (g1, g2) else None)"

definition first_line :: "string \<Rightarrow> error + string" where
  \<comment> \<open>\<open>description.splitlines()[0]\<close>\<close>
  "first_line description =
     (case splitlines description of [] \<Rightarrow> Inl IndexError | l # ls \<Rightarrow> Inr l)"

definition isquahogpatch :: "string \<Rightarrow> error + bool" where
  \<comment> \<open>\<open>_isquahogpatch\<close>, on the description of the node\<close>
  "isquahogpatch description =
     (case first_line description of
        Inl e \<Rightarrow> Inl e
      | Inr l \<Rightarrow> Inr (patchdesc_fullmatch l \<noteq> None))"

definition patchnameof :: "string \<Rightarrow> error + string" where
  \<comment> \<open>lines 383 to 385 of \<open>fold\<close>: the match on the first line, \<open>assert m\<close>, and
      \<open>m.group(2).strip()\<close>\<close>
  "patchnameof description =
     (case first_line description of
        Inl e \<Rightarrow> Inl e
      | Inr l \<Rightarrow> (case patchdesc_fullmatch l of
                    None \<Rightarrow> Inl AssertionError
                  | Some (g1, g2) \<Rightarrow> Inr (strip g2)))"

section \<open>Patch names in fold\<close>

abbreviation SP :: char where "SP \<equiv> CHR 0x20"
abbreviation DQ :: char where "DQ \<equiv> CHR 0x22"

text \<open>\<open>re.sub(rb' +', b'-', s)\<close>: every maximal run of spaces becomes one hyphen.\<close>

function sub_spaces :: "string \<Rightarrow> string" where
  "sub_spaces [] = []"
| "sub_spaces (c # cs) =
     (if c = SP then CHR ''-'' # sub_spaces (dropWhile (\<lambda>d. d = SP) cs)
      else c # sub_spaces cs)"
  by pat_completeness auto
termination
  by (relation "measure length") (auto simp: length_dropWhile_le less_Suc_eq_le)

definition rename_warning :: "string \<Rightarrow> string \<Rightarrow> string" where
  \<comment> \<open>the text passed to \<open>ui.warn\<close> on line 390\<close>
  "rename_warning origpatchname patchname =
     ''rewriting patch '' @ [DQ] @ origpatchname @ [DQ] @ '' to '' @ [DQ] @ patchname @ [DQ, LF]"

definition fold_patchname :: "string \<Rightarrow> error + (string \<times> string list)" where
  \<comment> \<open>lines 383 to 390 of \<open>fold\<close>: the file name of a patch commit and the warnings
      written while computing it\<close>
  "fold_patchname description =
     (case patchnameof description of
        Inl e \<Rightarrow> Inl e
      | Inr origpatchname \<Rightarrow>
          (let patchname = (if SP \<in> set origpatchname then sub_spaces origpatchname
                            else origpatchname)
           in Inr (patchname,
                   if patchname \<noteq> origpatchname
                   then [rename_warning origpatchname patchname]
                   else [])))"

text \<open>
  The normalisation in the words of the specification: every run of white space
  becomes one hyphen.
\<close>

function spec_hyphenate :: "string \<Rightarrow> string" where
  "spec_hyphenate [] = []"
| "spec_hyphenate (c # cs) =
     (if is_space c then CHR ''-'' # spec_hyphenate (dropWhile is_space cs)
      else c # spec_hyphenate cs)"
  by pat_completeness auto
termination
  by (relation "measure length") (auto simp: length_dropWhile_le less_Suc_eq_le)

section \<open>The series file and the messages of pop\<close>

definition series_patches :: "string \<Rightarrow> string list" where
  \<comment> \<open>lines 558 and 559 of \<open>pop\<close>: the active names of the series file\<close>
  "series_patches origseries =
     filter (\<lambda>p. p \<noteq> [] \<and> \<not> startswith p ''#'') (splitlines origseries)"

definition lstrip_chars :: "string \<Rightarrow> string \<Rightarrow> string" where
  \<comment> \<open>\<open>s.lstrip(chars)\<close>\<close>
  "lstrip_chars s chars = dropWhile (\<lambda>c. c \<in> set chars) s"

text \<open>
  The description that a changeset has once the backend has written it: the changelog
  right-trims every line of the message it is given, joins the lines with line feeds
  and removes the line feeds at both ends (\<open>stripdesc\<close> in the backend).  What
  \<open>node.description()\<close> returns for a commit made with a message is this text, not the
  message.
\<close>

definition stripdesc :: "string \<Rightarrow> string" where
  "stripdesc desc =
     lstrip_chars (rstrip_chars (join [LF] (map rstrip (splitlines desc))) [LF]) [LF]"

definition pop_patchmessage :: "string \<Rightarrow> string \<Rightarrow> string" where
  \<comment> \<open>lines 627 to 629 of \<open>pop\<close>\<close>
  "pop_patchmessage patchtopop patchdesc =
     (let patchmessage = ''DO NOT SUBMIT [PATCH] '' @ patchtopop
      in if patchdesc \<noteq> [] then patchmessage @ [LF, LF] @ patchdesc else patchmessage)"

section \<open>PatchCodec: reading a patch file\<close>

definition is_diff_start :: "string \<Rightarrow> bool" where
  \<comment> \<open>the test of line 70\<close>
  "is_diff_start line \<longleftrightarrow>
     startswith line ''--- '' \<or> startswith line ''diff --git'' \<or> startswith line ''rename from''"

text \<open>
  The loop of \<open>_separatepatchdescription\<close>, from index \<open>i\<close> over the lines left: the
  result is the value of \<open>i\<close> after the loop and the description lines collected.
  When the loop runs to the end of the list, \<open>i\<close> is the index of the last line.
\<close>

fun separate_scan :: "nat \<Rightarrow> string list \<Rightarrow> string list \<Rightarrow> nat \<times> string list" where
  "separate_scan i [] desclines = (i - 1, desclines)"
| "separate_scan i (line # rest) desclines =
     (if is_diff_start line then (i, desclines)
      else if startswith line ''Index: '' then (i + 2, desclines)
      else separate_scan (i + 1) rest (desclines @ [rstrip line]))"

definition separatepatchdescription :: "string \<Rightarrow> string \<times> string" where
  "separatepatchdescription patchcontent =
     (let patchlines = splitlines_keep patchcontent @ [[]];
          (i, desclines) = separate_scan 0 patchlines []
      in (lstrip (concat (drop i patchlines)), rstrip (join [LF] desclines)))"

text \<open>
  \<open>_canonicalizepatchcontent\<close> substitutes \<open>\1\2\3\4\<close> for every match of the pattern
  \<open>(^|\n)(---|\+\+\+)(\s)(\S*/)?(rootpath)\<close>, where the root path is pasted into the
  pattern as it is.  The model takes the root path as the literal text to find, which
  is what the pattern means when the root path holds none of the characters that are
  special in a pattern.
\<close>

definition re_literal :: "string \<Rightarrow> bool" where
  "re_literal rootpath \<longleftrightarrow> filter (\<lambda>c. c \<in> set (''.^$*+?{}[]|()'' @ [CHR 0x5C])) rootpath = []"

text \<open>
  Group 4 followed by group 5 at \<open>s\<close>: \<open>\S*\<close> is greedy, so the matcher takes the
  longest run of characters that are not white space, ends in a slash and has the root
  path right after it.  The result is the length of group 4.
\<close>

fun dirprefix :: "string \<Rightarrow> string \<Rightarrow> nat option" where
  "dirprefix rootpath [] = None"
| "dirprefix rootpath (c # cs) =
     (if is_space c then None
      else (case dirprefix rootpath cs of
              Some k \<Rightarrow> Some (Suc k)
            | None \<Rightarrow> if c = CHR ''/'' \<and> startswith cs rootpath then Some 1 else None))"

text \<open>
  Groups 2 to 5 at \<open>s\<close>: the text of groups 2, 3 and 4, which the substitution keeps,
  and what follows the match.  Group 4 is optional: the matcher tries it first and
  looks for the root path right after the white space only when that fails.
\<close>

definition match_header :: "string \<Rightarrow> string \<Rightarrow> (string \<times> string) option" where
  "match_header rootpath s =
     (if (startswith s ''---'' \<or> startswith s ''+++'') \<and> drop 3 s \<noteq> [] \<and> is_space (hd (drop 3 s))
      then (let t = drop 4 s
            in case dirprefix rootpath t of
                 Some k \<Rightarrow> Some (take (4 + k) s, drop (k + length rootpath) t)
               | None \<Rightarrow> if startswith t rootpath
                         then Some (take 4 s, drop (length rootpath) t) else None)
      else None)"

text \<open>
  The substitution from a place that is not the start of the content: group 1 can
  only be a line feed there.  The search goes on after each match.
\<close>

function canon_tail :: "string \<Rightarrow> string \<Rightarrow> string" where
  "canon_tail rootpath [] = []"
| "canon_tail rootpath (c # cs) =
     (if c = LF
      then (case match_header rootpath cs of
              Some (kept, rest) \<Rightarrow> LF # kept @ canon_tail rootpath rest
            | None \<Rightarrow> LF # canon_tail rootpath cs)
      else c # canon_tail rootpath cs)"
  by pat_completeness auto
termination
  by (relation "measure (\<lambda>(rootpath, s). length s)")
     (auto simp: match_header_def Let_def split: if_splits option.splits)

definition canonicalizepatchcontent :: "string \<Rightarrow> string \<Rightarrow> string" where
  \<comment> \<open>at the start of the content group 1 is empty (\<open>^\<close>) when the rest matches there,
      and the line feed alternative is tried otherwise\<close>
  "canonicalizepatchcontent patchcontent rootpath =
     (case match_header rootpath patchcontent of
        Some (kept, rest) \<Rightarrow> kept @ canon_tail rootpath rest
      | None \<Rightarrow> canon_tail rootpath patchcontent)"

text \<open>\<open>re.search\<close> with the same pattern: whether the content holds a match.\<close>

function search_tail :: "string \<Rightarrow> string \<Rightarrow> bool" where
  "search_tail rootpath [] = False"
| "search_tail rootpath (c # cs) =
     (if c = LF \<and> match_header rootpath cs \<noteq> None then True
      else search_tail rootpath cs)"
  by pat_completeness auto
termination
  by (relation "measure (\<lambda>(rootpath, s). length s)") auto

definition abspath_search :: "string \<Rightarrow> string \<Rightarrow> bool" where
  "abspath_search patchcontent rootpath \<longleftrightarrow>
     match_header rootpath patchcontent \<noteq> None \<or> search_tail rootpath patchcontent"


section \<open>PopEngine: from the series file to the end of pop\<close>

text \<open>
  The working directory is a map from paths to file contents; the repository behind
  it is a value of a type the model leaves open.  Every step of pop takes the state
  and returns the new state with either a result or the exception raised; the state
  at the moment of an exception is kept, as the effects of a Python statement are
  when a later statement raises.  Writing a file through \<open>repo.wvfs\<close> is taken to
  succeed.  Messages written to the user are not part of the state.
\<close>

record 'b world =
  files :: "string \<Rightarrow> string option"
  backend :: 'b

type_synonym ('a, 'b) action = "'b world \<Rightarrow> (error + 'a) \<times> 'b world"

definition andthen :: "('a, 'b) action \<Rightarrow> ('a \<Rightarrow> ('c, 'b) action) \<Rightarrow> ('c, 'b) action" where
  "andthen m f w = (case m w of (Inl e, w') \<Rightarrow> (Inl e, w') | (Inr x, w') \<Rightarrow> f x w')"

definition return :: "'a \<Rightarrow> ('a, 'b) action" where
  "return x w = (Inr x, w)"

definition raise :: "error \<Rightarrow> ('a, 'b) action" where
  "raise e w = (Inl e, w)"

definition read_file :: "string \<Rightarrow> (string, 'b) action" where
  \<comment> \<open>\<open>with repo.wvfs(path) as f: f.read()\<close>\<close>
  "read_file path w = (case files w path of None \<Rightarrow> (Inl (IOError path), w) | Some c \<Rightarrow> (Inr c, w))"

definition write_file :: "string \<Rightarrow> string \<Rightarrow> (unit, 'b) action" where
  \<comment> \<open>\<open>with repo.wvfs(path, b'wb') as f: f.write(content)\<close>\<close>
  "write_file path content w = (Inr (), w\<lparr>files := (files w)(path \<mapsto> content)\<rparr>)"

definition unlinkpath :: "string \<Rightarrow> (unit, 'b) action" where
  "unlinkpath path w =
     (case files w path of
        None \<Rightarrow> (Inl (IOError path), w)
      | Some c \<Rightarrow> (Inr (), w\<lparr>files := (files w)(path := None)\<rparr>))"

definition pathjoin :: "string \<Rightarrow> string \<Rightarrow> string" where
  \<comment> \<open>one step of \<open>os.path.join\<close>\<close>
  "pathjoin path b =
     (if startswith b ''/'' then b
      else if path = [] \<or> last path = CHR ''/'' then path @ b
      else path @ ''/'' @ b)"

definition reljoin :: "string \<Rightarrow> string list \<Rightarrow> string" where
  "reljoin a ps = foldl pathjoin a ps"

text \<open>
  The collaborators of pop: the tracking of files, the external patch tool, and the
  commit, amend, rebase and checkout primitives of the backend.  Each may change the
  state in any way and may raise.  \<open>git_apply reverse rootpath input\<close> is the call of
  \<open>subprocess.run\<close> with \<open>check=True\<close>.
\<close>

datatype proc_result =
    Completed
  | CalledProcessError "string list" string
  | Raised error

record 'b collaborators =
  forget :: "string \<Rightarrow> (unit, 'b) action"
  git_apply :: "bool \<Rightarrow> string \<Rightarrow> string \<Rightarrow> 'b world \<Rightarrow> proc_result \<times> 'b world"
  refresh_status :: "(unit, 'b) action"
  commit :: "string \<Rightarrow> (nat option, 'b) action"
  amend :: "nat \<Rightarrow> (bool, 'b) action"
  rebase :: "nat list \<Rightarrow> nat \<Rightarrow> (unit, 'b) action"
  restore_checkout :: "nat \<Rightarrow> (unit, 'b) action"

definition run_patch :: "'b collaborators \<Rightarrow> bool \<Rightarrow> string \<Rightarrow> string \<Rightarrow> string \<Rightarrow> (unit, 'b) action" where
  \<comment> \<open>the two \<open>try\<close> blocks around \<open>subprocess.run\<close>: a failure of the tool becomes
      the abort with the given message, any other exception goes on as it is\<close>
  "run_patch ext reverse rootpath input message w =
     (case git_apply ext reverse rootpath input w of
        (Completed, w') \<Rightarrow> (Inr (), w')
      | (CalledProcessError cmd err, w') \<Rightarrow> (Inl (Abort message), w')
      | (Raised e, w') \<Rightarrow> (Inl e, w'))"

definition series_rewrite :: "string list \<Rightarrow> nat \<Rightarrow> string" where
  \<comment> \<open>what line 570 writes in iteration \<open>i\<close>: \<open>b'\n'.join(patches[:-i-1]) + b'\n'\<close>\<close>
  "series_rewrite patches i = join [LF] (take (length patches - i - 1) patches) @ [LF]"

fun pop_loop ::
  "'b collaborators \<Rightarrow> string \<Rightarrow> string \<Rightarrow> string list \<Rightarrow> (nat \<times> string) list
     \<Rightarrow> (string \<times> string \<times> string) list \<Rightarrow> ((string \<times> string \<times> string) list, 'b) action" where
  "pop_loop ext rootpath seriespath patches [] patchinfos = return patchinfos"
| "pop_loop ext rootpath seriespath patches ((i, patchtopop) # todo) patchinfos =
     andthen (write_file seriespath (series_rewrite patches i)) (\<lambda>_.
     let patchpath = reljoin rootpath [''patches'', patchtopop] in
     andthen (read_file patchpath) (\<lambda>filecontent.
     let (body, patchdesc) = separatepatchdescription filecontent;
         patchcontent = canonicalizepatchcontent body rootpath in
     andthen (forget ext patchpath) (\<lambda>_.
     andthen (unlinkpath patchpath) (\<lambda>_.
     andthen (run_patch ext True rootpath patchcontent ''failed to reverse patch'') (\<lambda>_.
     pop_loop ext rootpath seriespath patches todo
       (patchinfos @ [(patchtopop, patchcontent, patchdesc)]))))))"

definition g3relpath :: "string \<Rightarrow> error + string" where
  \<comment> \<open>\<open>rootpath[rootpath.index(b'/')+1:]\<close>\<close>
  "g3relpath rootpath =
     (if CHR ''/'' \<in> set rootpath
      then Inr (drop (Suc (length (takeWhile (\<lambda>c. c \<noteq> CHR ''/'') rootpath))) rootpath)
      else Inl ValueError)"

definition pop_base :: "'b collaborators \<Rightarrow> string \<Rightarrow> bool \<Rightarrow> nat \<Rightarrow> (unit, 'b) action" where
  \<comment> \<open>lines 595 to 608: commit a new base, or amend the one found\<close>
  "pop_base ext rootpath createnew fromctx =
     (if createnew
      then (case g3relpath rootpath of
              Inl e \<Rightarrow> raise e
            | Inr rel \<Rightarrow>
                andthen (commit ext (''#QUAHOG Modify patches for '' @ rel @ ''.'')) (\<lambda>node.
                if node = None then raise AssertionError else return ()))
      else andthen (amend ext fromctx) (\<lambda>ok.
           if ok then return () else raise AssertionError))"

fun reapply_loop ::
  "'b collaborators \<Rightarrow> string \<Rightarrow> (string \<times> string \<times> string) list \<Rightarrow> nat option
     \<Rightarrow> (nat option, 'b) action" where
  "reapply_loop ext rootpath [] leaf = return leaf"
| "reapply_loop ext rootpath ((patchtopop, patchcontent, patchdesc) # todo) leaf =
     andthen (run_patch ext False rootpath patchcontent (patchtopop @ '': failed to apply patch'')) (\<lambda>_.
     andthen (refresh_status ext) (\<lambda>_.
     andthen (commit ext (pop_patchmessage patchtopop patchdesc)) (\<lambda>node.
     if node = None then raise AssertionError
     else reapply_loop ext rootpath todo node)))"

text \<open>
  What the first part of pop (lines 519 to 552) hands to the rest: the root, the count
  (at least 1 here, line 523 returns otherwise), the \<open>--all\<close> flag, whether a new base
  is to be created, the base, the revisions to rebase, and the revision checked out
  at the start.
\<close>

record pop_args =
  pop_rootpath :: string
  pop_patchestopop :: nat
  pop_popall :: bool
  pop_createnew :: bool
  pop_fromctx :: nat
  pop_rebaserevs :: "nat list"
  pop_origctx :: nat

definition pop_try ::
  "'b collaborators \<Rightarrow> pop_args \<Rightarrow> string \<Rightarrow> string list \<Rightarrow> nat \<Rightarrow> (unit, 'b) action" where
  \<comment> \<open>the body of the \<open>try\<close> statement, lines 567 to 643\<close>
  "pop_try ext args seriespath patches n =
     andthen (pop_loop ext (pop_rootpath args) seriespath patches (zip [0..<n] (rev patches)) []) (\<lambda>patchinfos.
     andthen (refresh_status ext) (\<lambda>_.
     andthen (pop_base ext (pop_rootpath args) (pop_createnew args) (pop_fromctx args)) (\<lambda>_.
     andthen (reapply_loop ext (pop_rootpath args) (rev patchinfos) None) (\<lambda>leaf.
     andthen (if pop_rebaserevs args \<noteq> []
              then (case leaf of
                      None \<Rightarrow> raise (NameError ''leaf'')
                    | Some l \<Rightarrow> rebase ext (pop_rebaserevs args) l)
              else return ()) (\<lambda>_.
     restore_checkout ext (pop_origctx args))))))"

datatype pop_result = NoPatches | Popped

definition pop_series :: "'b collaborators \<Rightarrow> pop_args \<Rightarrow> (pop_result, 'b) action" where
  \<comment> \<open>lines 553 to 647 of \<open>pop\<close>\<close>
  "pop_series ext args w =
     (let seriespath = reljoin (pop_rootpath args) [''patches'', ''series'']
      in case files w seriespath of
           None \<Rightarrow> (Inl (Abort (seriespath @ '': no such file'')), w)
         | Some origseries \<Rightarrow>
             (let patches = series_patches origseries;
                  n = (if pop_popall args then length patches else pop_patchestopop args)
              in if pop_popall args \<and> n < 1 then (Inr NoPatches, w)
                 else (case pop_try ext args seriespath patches n w of
                         (Inl e, w') \<Rightarrow>
                           (Inl e, w'\<lparr>files := (files w')(seriespath \<mapsto> origseries)\<rparr>)
                       | (Inr u, w') \<Rightarrow> (Inr Popped, w'))))"


subsection \<open>A scenario\<close>

text \<open>
  A patch root \<open>lib\<close> with three patches and a comment line in the series file.  In
  the scenario the patch tool fails on one given input when applying forwards and
  succeeds otherwise, every commit succeeds and returns the next revision number, and
  the other collaborators do nothing.
\<close>

definition scenario_ext :: "string \<Rightarrow> nat collaborators" where
  "scenario_ext failing =
     \<lparr> forget = (\<lambda>path. return ()),
       git_apply = (\<lambda>reverse root input w.
          (if reverse then Completed
           else if input = failing then CalledProcessError [''git'', ''apply''] ''error: patch failed''
           else Completed, w)),
       refresh_status = return (),
       commit = (\<lambda>message w. (Inr (Some (backend w)), w\<lparr>backend := Suc (backend w)\<rparr>)),
       amend = (\<lambda>r. return True),
       rebase = (\<lambda>revs dest. return ()),
       restore_checkout = (\<lambda>r. return ()) \<rparr>"

definition scenario_series :: string where
  "scenario_series = ''# local'' @ [LF] @ ''a'' @ [LF] @ ''b'' @ [LF] @ ''c'' @ [LF]"

definition scenario_world :: "nat world" where
  "scenario_world =
     \<lparr> files = [''lib/patches/series'' \<mapsto> scenario_series,
                ''lib/patches/a'' \<mapsto> ''--- a/fa'' @ [LF],
                ''lib/patches/b'' \<mapsto> ''why'' @ [LF, LF] @ ''--- a/fb'' @ [LF],
                ''lib/patches/c'' \<mapsto> ''--- a/fc'' @ [LF]],
       backend = 10 \<rparr>"

definition scenario_args :: "nat \<Rightarrow> pop_args" where
  "scenario_args count =
     \<lparr> pop_rootpath = ''lib'', pop_patchestopop = count, pop_popall = False,
       pop_createnew = False, pop_fromctx = 9, pop_rebaserevs = [], pop_origctx = 9 \<rparr>"


section \<open>The commit graph\<close>

text \<open>
  The repository as pop and fold see it: the changesets in the order of their
  revision numbers, each with its description, the revision numbers of its parents,
  its phase and its hexadecimal identifier.  The changelog of the backend looks for
  the children of a revision among the later revisions only; \<open>children\<close> is that
  search.
\<close>

datatype phase = Public | Draft | Secret

record changeset =
  c_description :: string
  c_parents :: "nat list"
  c_phase :: phase
  c_hex :: string

type_synonym repo = "changeset list"

definition children :: "repo \<Rightarrow> nat \<Rightarrow> nat list" where
  "children repo r = filter (\<lambda>c. r \<in> set (c_parents (repo ! c))) [Suc r..<length repo]"

definition revset_children :: "repo \<Rightarrow> nat list \<Rightarrow> nat list" where
  \<comment> \<open>the revset \<open>children(set)\<close>\<close>
  "revset_children repo parentset =
     (if parentset = [] then []
      else filter (\<lambda>r. Min (set parentset) < r \<and> set (c_parents (repo ! r)) \<inter> set parentset \<noteq> {})
             [0..<length repo])"

definition pop_rebaserevs :: "(string \<Rightarrow> nat list) \<Rightarrow> repo \<Rightarrow> nat \<Rightarrow> string \<Rightarrow> bool \<Rightarrow> nat list" where
  \<comment> \<open>lines 548 to 552 of \<open>pop\<close>, with the working directory on \<open>dot\<close>, the resolved
      base; \<open>revs\<close> evaluates a revset given by the user, an empty option is false\<close>
  "pop_rebaserevs revs repo dot rebaseopt createnew =
     (if rebaseopt \<noteq> [] then revs rebaseopt
      else if createnew then []
      else revset_children repo (if c_phase (repo ! dot) = Public then [] else [dot]))"

definition phases_consistent :: "repo \<Rightarrow> bool" where
  \<comment> \<open>the invariant of the backend: parents come first, and the parents of a public
      changeset are public\<close>
  "phases_consistent repo \<longleftrightarrow>
     list_all (\<lambda>c. list_all (\<lambda>p. p < c \<and> (c_phase (repo ! c) = Public \<longrightarrow> c_phase (repo ! p) = Public))
                      (c_parents (repo ! c)))
       [0..<length repo]"

section \<open>FoldEngine: resolving the patch chain\<close>

definition reverr :: "string \<Rightarrow> string \<Rightarrow> string" where
  \<comment> \<open>\<open>_reverr\<close>, on the hexadecimal identifier of the node\<close>
  "reverr hex message =
     ''rev '' @ (case hex of [] \<Rightarrow> [] | c # cs \<Rightarrow> if c \<in> set ''0123456789'' then ''x'' else [])
       @ take 8 hex @ '': '' @ message"

definition patch_children :: "repo \<Rightarrow> nat \<Rightarrow> error + nat list" where
  \<comment> \<open>\<open>[ctx for ctx in patchctx.children() if _isquahogpatch(ctx)]\<close>; the test raises
      on a child with an empty description\<close>
  "patch_children repo r =
     (if filter (\<lambda>c. isquahogpatch (c_description (repo ! c)) = Inl IndexError) (children repo r) \<noteq> []
      then Inl IndexError
      else Inr (filter (\<lambda>c. isquahogpatch (c_description (repo ! c)) = Inr True) (children repo r)))"

function chain_walk :: "repo \<Rightarrow> bool \<Rightarrow> nat \<Rightarrow> nat \<Rightarrow> nat list \<Rightarrow> error + nat list" where
  "chain_walk repo foldall foldcount patchctx patchrevs =
     (if foldall \<or> length patchrevs \<noteq> foldcount
      then (case patch_children repo patchctx of
              Inl e \<Rightarrow> Inl e
            | Inr patches \<Rightarrow>
                if 1 < length patches
                then Inl (Abort (reverr (c_hex (repo ! patchctx))
                                   ''ambiguous chain: multiple patch children''))
                else (case patches of
                        [] \<Rightarrow> Inr patchrevs
                      | p # ps \<Rightarrow> chain_walk repo foldall foldcount p (patchrevs @ [p])))
      else Inr patchrevs)"
  by pat_completeness auto
termination
proof (relation "measure (\<lambda>(repo, foldall, foldcount, patchctx, patchrevs). length repo - patchctx)")
  show "wf (measure (\<lambda>(repo, foldall, foldcount, patchctx, patchrevs). length repo - patchctx))"
    by simp
next
  fix repo :: repo and foldall :: bool and foldcount patchctx :: nat and patchrevs patches ps :: "nat list"
    and p :: nat
  assume "patch_children repo patchctx = Inr patches" and "patches = p # ps"
  then have "p \<in> set (children repo patchctx)"
    by (auto simp: patch_children_def split: if_splits dest: filter_eq_ConsD)
  then have "patchctx < p \<and> p < length repo" by (auto simp: children_def)
  then have "length repo - p < length repo - patchctx" by arith
  then show "((repo, foldall, foldcount, p, patchrevs @ [p]), repo, foldall, foldcount, patchctx, patchrevs)
          \<in> measure (\<lambda>(repo, foldall, foldcount, patchctx, patchrevs). length repo - patchctx)"
    by simp
qed

text \<open>
  The start of fold when no \<open>--rev\<close> is given: the checks of the count (lines 300 to
  305), the walk from the target, and the return with a warning when the chain is
  empty (lines 376 to 378).  The rest of fold, from line 379 on, is a parameter.
\<close>

datatype fold_result = CountNotPositive | NoPatchesToFold | Folded

definition fold_implicit ::
  "(nat list \<Rightarrow> (unit, 'b) action) \<Rightarrow> repo \<Rightarrow> bool \<Rightarrow> int \<Rightarrow> nat \<Rightarrow> (fold_result, 'b) action" where
  "fold_implicit fold_rest repo foldall count toctx w =
     (if count < 0 then (Inr CountNotPositive, w)
      else (let foldcount = (if \<not> foldall \<and> count = 0 then 1 else nat count)
            in case chain_walk repo foldall foldcount toctx [] of
                 Inl e \<Rightarrow> (Inl e, w)
               | Inr patchrevs \<Rightarrow>
                   if patchrevs = [] then (Inr NoPatchesToFold, w)
                   else (case fold_rest patchrevs w of
                           (Inl e, w') \<Rightarrow> (Inl e, w')
                         | (Inr u, w') \<Rightarrow> (Inr Folded, w'))))"

text \<open>
  The chain in the words of the specification: starting below the target, each member
  is the one and only Patch child of the one before.
\<close>

fun patch_chain :: "repo \<Rightarrow> nat \<Rightarrow> nat list \<Rightarrow> bool" where
  "patch_chain repo t [] = True"
| "patch_chain repo t (r # rs) = (patch_children repo t = Inr [r] \<and> patch_chain repo r rs)"

subsection \<open>A small repository\<close>

text \<open>
  A public base (revision 0) with a draft Patch child (1), which has a draft Patch
  child (2), which has two draft Patch children (3 and 4).
\<close>

definition scenario_repo :: repo where
  "scenario_repo =
     [\<lparr>c_description = ''#QUAHOG base'', c_parents = [], c_phase = Public, c_hex = ''0a''\<rparr>,
      \<lparr>c_description = ''[PATCH] x'', c_parents = [0], c_phase = Draft, c_hex = ''1b''\<rparr>,
      \<lparr>c_description = ''[PATCH] y'', c_parents = [1], c_phase = Draft, c_hex = ''c2''\<rparr>,
      \<lparr>c_description = ''[PATCH] z'', c_parents = [2], c_phase = Draft, c_hex = ''d3''\<rparr>,
      \<lparr>c_description = ''[PATCH] w'', c_parents = [2], c_phase = Draft, c_hex = ''e4''\<rparr>]"


section \<open>Results\<close>

text \<open>
  C4.  The claim: for every line beginning \<open>@@ \<close>, \<open>_hgdifftopatch\<close> strips the
  trailing white space and appends the line's own terminator again, so that a line
  ending in carriage return, line feed keeps both.  The source tests for that
  terminator by comparing a slice of the line, a \<open>bytes\<close> value, with the \<open>str\<close>
  literal \<open>'\r\n'\<close>, which is never equal, so the terminator it appends is always the
  last byte alone.  On the diff made of the one hunk header
  \<open>@@ -1 +1 @@\<close>, a space, carriage return, line feed, the output ends in a line
  feed only: the carriage return is lost.
\<close>

theorem hgdifftopatch_crlf_hunk_header:
  "hgdifftopatch (''@@ -1 +1 @@ '' @ [CR, LF]) ''lib'' = ''@@ -1 +1 @@'' @ [LF]"
  by (simp add: hgdifftopatch_def hgdifftopatch_line_def List.map_filter_def
      rstrip_chars_def rstrip_def last_bytes_def bytes_eq_str_def is_space_def is_eol_def)

subsection \<open>Lines and trimming\<close>

lemma chomp_no_eol: "filter is_eol (chomp l) = []"
  unfolding chomp_def filter_empty_conv by (auto dest: set_takeWhileD)

lemma splitlines_no_eol: "l \<in> set (splitlines s) \<Longrightarrow> filter is_eol l = []"
  by (auto simp: splitlines_def chomp_no_eol)

lemma splitlines_keep_no_eol:
  "filter is_eol a = [] \<Longrightarrow> splitlines_keep (a @ LF # r) = (a @ [LF]) # splitlines_keep r"
proof (induction a)
  case Nil
  show ?case by (simp add: is_eol_def)
next
  case (Cons c a)
  from Cons.prems have c: "\<not> is_eol c" and a: "filter is_eol a = []"
    by (simp_all split: if_splits)
  from c have "c \<noteq> CR" by (auto simp: is_eol_def)
  with c Cons.IH [OF a] show ?case by simp
qed

lemma splitlines_keep_single:
  "filter is_eol a = [] \<Longrightarrow> a \<noteq> [] \<Longrightarrow> splitlines_keep a = [a]"
proof (induction a)
  case Nil
  then show ?case by simp
next
  case (Cons c a)
  from Cons.prems have c: "\<not> is_eol c" and a: "filter is_eol a = []"
    by (simp_all split: if_splits)
  from c have cr: "c \<noteq> CR" by (auto simp: is_eol_def)
  show ?case
  proof (cases "a = []")
    case True
    with c cr show ?thesis by simp
  next
    case False
    with c cr Cons.IH [OF a] show ?thesis by simp
  qed
qed

lemma chomp_append_LF: "filter is_eol a = [] \<Longrightarrow> chomp (a @ LF # r) = a"
  unfolding chomp_def filter_empty_conv
  by (subst takeWhile_append2) (auto simp: is_eol_def)

lemma chomp_id: "filter is_eol a = [] \<Longrightarrow> chomp a = a"
  unfolding chomp_def filter_empty_conv by (simp add: takeWhile_eq_all_conv)

lemma rstrip_Cons:
  "rstrip (c # s) = (if is_space c \<and> rstrip s = [] then [] else c # rstrip s)"
  by (simp add: rstrip_def dropWhile_append)

lemma strip_space_Cons: "is_space c \<Longrightarrow> strip (c # s) = strip s"
  by (simp add: strip_def rstrip_Cons lstrip_def)

subsection \<open>Messages of pop\<close>

lemma patchdesc_fullmatch_pop:
  "filter is_eol n = [] \<Longrightarrow>
   patchdesc_fullmatch (''DO NOT SUBMIT [PATCH] '' @ n) = Some (Some ''DO NOT SUBMIT '', SP # n)"
  by (simp add: patchdesc_fullmatch_def lower_def is_space_def is_eol_def)

lemma first_line_pop:
  assumes "filter is_eol n = []"
  shows "first_line (pop_patchmessage n d) = Inr (''DO NOT SUBMIT [PATCH] '' @ n)"
proof -
  let ?p = "''DO NOT SUBMIT [PATCH] '' @ n"
  have p: "filter is_eol ?p = []" using assms by (simp add: is_eol_def)
  have ne: "?p \<noteq> []" by simp
  show ?thesis
  proof (cases "d = []")
    case True
    then have "pop_patchmessage n d = ?p" by (simp add: pop_patchmessage_def)
    with splitlines_keep_single [OF p ne] chomp_id [OF p] show ?thesis
      by (simp add: first_line_def splitlines_def)
  next
    case False
    then have "pop_patchmessage n d = ?p @ LF # (LF # d)" by (simp add: pop_patchmessage_def)
    with splitlines_keep_no_eol [OF p, of "LF # d"] chomp_append_LF [OF p, of "[]"] show ?thesis
      by (simp add: first_line_def splitlines_def)
  qed
qed

lemma series_patches_no_eol: "p \<in> set (series_patches s) \<Longrightarrow> filter is_eol p = []"
  by (auto simp: series_patches_def dest: splitlines_no_eol)

subsection \<open>Patch names in fold\<close>

lemma sub_spaces_no_SP: "SP \<notin> set (sub_spaces s)"
  by (induction s rule: sub_spaces.induct) auto

lemma sub_spaces_id: "SP \<notin> set s \<Longrightarrow> sub_spaces s = s"
  by (induction s) auto

lemma sub_spaces_prefix: "SP \<notin> set a \<Longrightarrow> sub_spaces (a @ r) = a @ sub_spaces r"
  by (induction a) auto

lemma sub_spaces_run:
  "b = [] \<or> hd b \<noteq> SP \<Longrightarrow> sub_spaces (replicate (Suc n) SP @ b) = CHR ''-'' # sub_spaces b"
  by (cases b) (auto simp: dropWhile_append3 dropWhile_append)

text \<open>
  C5, as amended.  For every patch commit that fold writes out (its first description
  line matches the Patch pattern, the captured name being group 2, trimmed), the
  stored file name is the captured name with every maximal run of space characters
  (byte 0x20) replaced by one hyphen: it holds no space, it is the captured name
  itself exactly when that holds no space, and a run of spaces between a space-free
  prefix and a rest that does not begin with a space becomes one hyphen.  White space
  other than the space character is left as it is.  The rename warning is written
  exactly when the stored name differs from the captured name.
\<close>

theorem fold_patchname_spaces:
  assumes "patchnameof description = Inr name"
  shows "fold_patchname description =
           Inr (sub_spaces name,
                if sub_spaces name \<noteq> name then [rename_warning name (sub_spaces name)] else [])
       \<and> SP \<notin> set (sub_spaces name)
       \<and> (sub_spaces name = name \<longleftrightarrow> SP \<notin> set name)
       \<and> (\<forall>a b n. SP \<notin> set a \<and> (b = [] \<or> hd b \<noteq> SP) \<longrightarrow>
             sub_spaces (a @ replicate (Suc n) SP @ b) = a @ ''-'' @ sub_spaces b)"
proof -
  have iff: "sub_spaces name = name \<longleftrightarrow> SP \<notin> set name"
    using sub_spaces_no_SP [of name] sub_spaces_id [of name] by auto
  have run: "\<forall>a b n. SP \<notin> set a \<and> (b = [] \<or> hd b \<noteq> SP) \<longrightarrow>
             sub_spaces (a @ replicate (Suc n) SP @ b) = a @ ''-'' @ sub_spaces b"
    using sub_spaces_prefix sub_spaces_run by simp
  have "fold_patchname description =
           Inr (sub_spaces name,
                if sub_spaces name \<noteq> name then [rename_warning name (sub_spaces name)] else [])"
    using assms sub_spaces_id [of name] by (simp add: fold_patchname_def Let_def)
  with iff run sub_spaces_no_SP [of name] show ?thesis by blast
qed

theorem fold_patchname_spaces_witness:
  "patchnameof (''do not submit [patch] fix  the   build'' @ [LF] @ ''body'') = Inr ''fix  the   build''
   \<and> fold_patchname (''do not submit [patch] fix  the   build'' @ [LF] @ ''body'') =
        Inr (''fix-the-build'', [rename_warning ''fix  the   build'' ''fix-the-build''])"
proof -
  have h: "patchnameof (''do not submit [patch] fix  the   build'' @ [LF] @ ''body'') = Inr ''fix  the   build''"
    by (simp add: patchnameof_def first_line_def splitlines_def chomp_def is_eol_def
        patchdesc_fullmatch_def lower_def is_space_def strip_def rstrip_def lstrip_def)
  have s: "sub_spaces ''fix  the   build'' = ''fix-the-build''" by simp
  show ?thesis using h fold_patchname_spaces [OF h] s by simp
qed

text \<open>
  C5 as stated fails: the name captured from the first line \<open>[PATCH] a<TAB>b\<close> holds
  a tab between its two letters, which is white space, and the stored name is that
  same name, with no warning; replacing every run of white space by a hyphen would
  give \<open>a-b\<close>.
\<close>

theorem fold_patchname_tab_counterexample:
  "patchnameof (''[PATCH] a'' @ [TAB] @ ''b'') = Inr (''a'' @ [TAB] @ ''b'')
   \<and> is_space TAB
   \<and> fold_patchname (''[PATCH] a'' @ [TAB] @ ''b'') = Inr (''a'' @ [TAB] @ ''b'', [])
   \<and> spec_hyphenate (''a'' @ [TAB] @ ''b'') = ''a-b''"
  by (simp add: fold_patchname_def patchnameof_def first_line_def splitlines_def chomp_def is_eol_def
        patchdesc_fullmatch_def lower_def is_space_def strip_def rstrip_def lstrip_def)

subsection \<open>Canonical paths\<close>

lemma startswith_append: "startswith s p \<longleftrightarrow> s = p @ drop (length p) s"
  by (induction s p rule: startswith.induct) auto

lemma startswith_appendI: "startswith (p @ t) p"
  by (induction p) auto

lemma dirprefix_sound:
  "dirprefix r t = Some k \<Longrightarrow> 0 < k \<and> k \<le> length t \<and> startswith (drop k t) r"
  by (induction t arbitrary: k) (auto split: if_splits option.splits)

lemma match_header_decomp:
  assumes "match_header r s = Some (kept, rest)"
  shows "s = kept @ r @ rest"
proof -
  from assms have four: "drop 3 s \<noteq> []"
    by (auto simp: match_header_def split: if_splits)
  show ?thesis
  proof (cases "dirprefix r (drop 4 s)")
    case None
    with assms have sw: "startswith (drop 4 s) r" and k: "kept = take 4 s"
      and rest: "rest = drop (length r) (drop 4 s)"
      by (auto simp: match_header_def Let_def split: if_splits)
    from sw have "drop 4 s = r @ rest" unfolding rest by (simp only: startswith_append [symmetric])
    then have "take 4 s @ drop 4 s = kept @ r @ rest" using k by simp
    then show ?thesis by simp
  next
    case (Some k)
    with assms have kept: "kept = take (4 + k) s"
      and rest: "rest = drop (k + length r) (drop 4 s)"
      by (auto simp: match_header_def Let_def split: if_splits)
    from dirprefix_sound [OF Some] have sw: "startswith (drop k (drop 4 s)) r" by simp
    have "drop k (drop 4 s) = r @ drop (length r) (drop k (drop 4 s))"
      using sw by (simp only: startswith_append [symmetric])
    then have "drop (4 + k) s = r @ rest" unfolding rest by (simp add: ac_simps)
    then have "take (4 + k) s @ drop (4 + k) s = kept @ r @ rest" using kept by simp
    then show ?thesis by simp
  qed
qed

lemma canon_tail_length: "length (canon_tail r s) \<le> length s"
proof (induction r s rule: canon_tail.induct)
  case (1 r)
  show ?case by simp
next
  case (2 r c cs)
  show ?case
  proof (cases "c = LF")
    case False
    with 2 show ?thesis by simp
  next
    case True
    show ?thesis
    proof (cases "match_header r cs")
      case None
      with True 2 show ?thesis by simp
    next
      case (Some kr)
      obtain kept rest where kr: "kr = (kept, rest)" by (cases kr)
      from match_header_decomp [of r cs kept rest] Some kr
      have "length cs = length kept + length r + length rest" by (metis length_append add.assoc)
      moreover from 2(2) [OF True Some [unfolded kr] refl] have "length (canon_tail r rest) \<le> length rest" .
      ultimately show ?thesis using True Some kr by simp
    qed
  qed
qed

lemma canon_tail_shorter:
  "search_tail r s \<Longrightarrow> r \<noteq> [] \<Longrightarrow> length (canon_tail r s) < length s"
proof (induction r s rule: canon_tail.induct)
  case (1 r)
  then show ?case by simp
next
  case (2 r c cs)
  show ?case
  proof (cases "c = LF \<and> match_header r cs \<noteq> None")
    case False
    with 2 show ?thesis by (auto split: option.splits)
  next
    case True
    then obtain kept rest where m: "match_header r cs = Some (kept, rest)" by auto
    from match_header_decomp [OF m]
    have "length cs = length kept + length r + length rest" by (metis length_append add.assoc)
    moreover have "length (canon_tail r rest) \<le> length rest" by (rule canon_tail_length)
    moreover have "1 \<le> length r" using 2(5) by (cases r) simp_all
    ultimately have "length (kept @ canon_tail r rest) < length cs"
      by (simp only: length_append)
    then show ?thesis using True m by simp
  qed
qed

lemma canon_tail_nomatch: "\<not> search_tail r s \<Longrightarrow> canon_tail r s = s"
  by (induction r s rule: canon_tail.induct) (auto split: option.splits if_splits)

lemma canon_tail_empty_root: "canon_tail [] s = s"
proof (induction "[] :: string" s rule: canon_tail.induct)
  case 1
  show ?case by simp
next
  case (2 c cs)
  show ?case
  proof (cases "c = LF")
    case False
    with 2 show ?thesis by simp
  next
    case True
    show ?thesis
    proof (cases "match_header [] cs")
      case None
      with True 2 show ?thesis by simp
    next
      case (Some kr)
      obtain kept rest where kr: "kr = (kept, rest)" by (cases kr)
      from match_header_decomp [of "[]" cs kept rest] Some kr have "cs = kept @ rest" by simp
      moreover from 2(2) [OF True Some [unfolded kr] refl] have "canon_tail [] rest = rest" .
      ultimately show ?thesis using True Some kr by simp
    qed
  qed
qed

lemma canonicalize_fixed:
  "canonicalizepatchcontent c r = c \<longleftrightarrow> r = [] \<or> \<not> abspath_search c r"
proof (cases "r = []")
  case True
  show ?thesis
  proof (cases "match_header [] c")
    case None
    with True show ?thesis by (simp add: canonicalizepatchcontent_def canon_tail_empty_root)
  next
    case (Some kr)
    obtain kept rest where kr: "kr = (kept, rest)" by (cases kr)
    from match_header_decomp [of "[]" c kept rest] Some kr have "c = kept @ rest" by simp
    with True Some kr show ?thesis
      by (simp add: canonicalizepatchcontent_def canon_tail_empty_root)
  qed
next
  case False
  show ?thesis
  proof (cases "match_header r c")
    case None
    show ?thesis
    proof (cases "search_tail r c")
      case True
      from canon_tail_shorter [OF True False] have "canon_tail r c \<noteq> c" by auto
      with None True False show ?thesis
        by (simp add: canonicalizepatchcontent_def abspath_search_def)
    next
      case nf: False
      with None False canon_tail_nomatch [OF nf] show ?thesis
        by (simp add: canonicalizepatchcontent_def abspath_search_def)
    qed
  next
    case (Some kr)
    obtain kept rest where kr: "kr = (kept, rest)" by (cases kr)
    from match_header_decomp [of r c kept rest] Some kr
    have "length c = length kept + length r + length rest" by (metis length_append add.assoc)
    moreover have "length (canon_tail r rest) \<le> length rest" by (rule canon_tail_length)
    moreover have "1 \<le> length r" using False by (cases r) simp_all
    ultimately have "length (kept @ canon_tail r rest) < length c"
      by (simp only: length_append)
    then have "kept @ canon_tail r rest \<noteq> c" by auto
    with Some kr False show ?thesis
      by (simp add: canonicalizepatchcontent_def abspath_search_def)
  qed
qed

text \<open>
  C9, as amended.  For a root path free of pattern characters, canonicalizePaths
  leaves a content as it is exactly when the root path is empty or the content holds
  no match of the pattern; so applying it twice equals applying it once exactly when
  the root path is empty or the content canonicalized once holds no further match.
\<close>

theorem canonicalize_idempotent_iff:
  assumes "re_literal rootpath"
  shows "canonicalizepatchcontent (canonicalizepatchcontent patchcontent rootpath) rootpath
           = canonicalizepatchcontent patchcontent rootpath
         \<longleftrightarrow> rootpath = [] \<or> \<not> abspath_search (canonicalizepatchcontent patchcontent rootpath) rootpath"
  by (rule canonicalize_fixed)

theorem canonicalize_idempotent_iff_witness:
  "re_literal ''lib''
   \<and> canonicalizepatchcontent ''--- a/lib/foo.c'' ''lib'' = ''--- a//foo.c''
   \<and> \<not> abspath_search ''--- a//foo.c'' ''lib''
   \<and> canonicalizepatchcontent ''--- a//foo.c'' ''lib'' = ''--- a//foo.c''"
proof -
  have h: "re_literal ''lib''" by (simp add: re_literal_def)
  have c: "canonicalizepatchcontent ''--- a/lib/foo.c'' ''lib'' = ''--- a//foo.c''"
    by (simp add: canonicalizepatchcontent_def match_header_def is_space_def)
  have n: "\<not> abspath_search ''--- a//foo.c'' ''lib''"
    by (simp add: abspath_search_def match_header_def is_space_def)
  show ?thesis
    using h c n canonicalize_idempotent_iff [OF h, of "''--- a/lib/foo.c''"] by simp
qed

text \<open>
  C9 as stated fails: with the root path \<open>lib\<close>, the content \<open>--- liblib\<close> becomes
  \<open>--- lib\<close>, which matches again and becomes \<open>--- \<close> on the second application.
\<close>

theorem canonicalize_not_idempotent:
  "re_literal ''lib''
   \<and> canonicalizepatchcontent ''--- liblib'' ''lib'' = ''--- lib''
   \<and> canonicalizepatchcontent (canonicalizepatchcontent ''--- liblib'' ''lib'') ''lib'' = ''--- ''"
  by (simp add: re_literal_def canonicalizepatchcontent_def match_header_def is_space_def)

lemma dirprefix_shape:
  "dirprefix r t = Some k \<Longrightarrow> filter is_space (take k t) = [] \<and> last (take k t) = CHR ''/''"
proof (induction t arbitrary: k)
  case Nil
  then show ?case by simp
next
  case (Cons c t)
  from Cons.prems have c: "\<not> is_space c" by (auto split: if_splits)
  show ?case
  proof (cases "dirprefix r t")
    case None
    with Cons.prems c have "k = 1" and "c = CHR ''/''" by (auto split: if_splits)
    with c show ?thesis by simp
  next
    case (Some j)
    with Cons.prems c have k: "k = Suc j" by simp
    from dirprefix_sound [OF Some] have "take j t \<noteq> []" by auto
    with Cons.IH [OF Some] c k show ?thesis by simp
  qed
qed

lemma startswith_take: "startswith s p \<Longrightarrow> take (length p) s = p"
  by (induction s p rule: startswith.induct) auto

lemma match_header_shape:
  assumes "match_header r s = Some (kept, rest)"
  shows "\<exists>h w p. (h = ''---'' \<or> h = ''+++'') \<and> is_space w \<and> kept = h @ w # p
           \<and> filter is_space p = [] \<and> (p = [] \<or> last p = CHR ''/'')"
proof -
  from assms have hd: "startswith s ''---'' \<or> startswith s ''+++''"
    and ne: "drop 3 s \<noteq> []" and w: "is_space (hd (drop 3 s))"
    by (auto simp: match_header_def split: if_splits)
  from hd have h: "take 3 s = ''---'' \<or> take 3 s = ''+++''"
    using startswith_take [of s "''---''"] startswith_take [of s "''+++''"]
    by (auto simp: numeral_3_eq_3)
  from ne have len: "3 < length s" by simp
  have s4: "Suc 3 = (4::nat)" by simp
  from len have w3: "hd (drop 3 s) = s ! 3" by (simp add: hd_drop_conv_nth)
  from len have t4: "take 4 s = take 3 s @ [s ! 3]"
    using take_Suc_conv_app_nth [of 3 s] by (simp only: s4)
  show ?thesis
  proof (cases "dirprefix r (drop 4 s)")
    case None
    with assms have "kept = take 4 s" by (auto simp: match_header_def Let_def split: if_splits)
    with t4 have "kept = take 3 s @ s ! 3 # []" by simp
    with h w w3 show ?thesis by auto
  next
    case (Some k)
    with assms have "kept = take (4 + k) s" by (auto simp: match_header_def Let_def split: if_splits)
    then have "kept = take 3 s @ s ! 3 # take k (drop 4 s)"
      using t4 take_add [of 4 k s] by simp
    moreover from dirprefix_shape [OF Some]
    have "filter is_space (take k (drop 4 s)) = []" and "last (take k (drop 4 s)) = CHR ''/''"
      by simp_all
    ultimately show ?thesis using h w w3 by auto
  qed
qed

lemma canon_tail_no_LF: "LF \<notin> set pre \<Longrightarrow> canon_tail r (pre @ x) = pre @ canon_tail r x"
  by (induction pre) auto

text \<open>
  C3, as amended.  For a root path free of pattern characters, wherever the pattern
  matches at the start of a line (here: at the start of the content, or on the line
  after a first line that holds no match), the matched text is \<open>---\<close> or \<open>+++\<close>, one
  white-space character, an optional prefix of characters that are not white space
  ending in a slash, and the root path; the rewritten content keeps the marker, the
  white space and the prefix, and it is the occurrence of the root path that is
  removed.  The search goes on in what follows the root path.
\<close>

theorem canonicalize_removes_root:
  assumes "re_literal rootpath" and "match_header rootpath s = Some (kept, rest)"
  shows "(\<exists>h w p. (h = ''---'' \<or> h = ''+++'') \<and> is_space w \<and> kept = h @ w # p
             \<and> filter is_space p = [] \<and> (p = [] \<or> last p = CHR ''/''))
       \<and> s = kept @ rootpath @ rest
       \<and> canonicalizepatchcontent s rootpath = kept @ canon_tail rootpath rest
       \<and> (\<forall>pre. LF \<notin> set pre \<and> match_header rootpath (pre @ LF # s) = None \<longrightarrow>
             canonicalizepatchcontent (pre @ LF # s) rootpath
               = pre @ LF # kept @ canon_tail rootpath rest)"
proof (intro conjI allI impI)
  show "\<exists>h w p. (h = ''---'' \<or> h = ''+++'') \<and> is_space w \<and> kept = h @ w # p
             \<and> filter is_space p = [] \<and> (p = [] \<or> last p = CHR ''/'')"
    by (rule match_header_shape [OF assms(2)])
  show "s = kept @ rootpath @ rest" by (rule match_header_decomp [OF assms(2)])
  show "canonicalizepatchcontent s rootpath = kept @ canon_tail rootpath rest"
    by (simp add: canonicalizepatchcontent_def assms(2))
  fix pre
  assume pre: "LF \<notin> set pre \<and> match_header rootpath (pre @ LF # s) = None"
  then have "canon_tail rootpath (pre @ LF # s) = pre @ canon_tail rootpath (LF # s)"
    by (simp add: canon_tail_no_LF)
  also have "canon_tail rootpath (LF # s) = LF # kept @ canon_tail rootpath rest"
    by (simp add: assms(2))
  finally show "canonicalizepatchcontent (pre @ LF # s) rootpath
               = pre @ LF # kept @ canon_tail rootpath rest"
    using pre by (simp add: canonicalizepatchcontent_def)
qed

theorem canonicalize_removes_root_witness:
  "re_literal ''lib'' \<and> match_header ''lib'' ''+++ b/lib/foo.c'' = Some (''+++ b/'', ''/foo.c'')
   \<and> ''+++ b/lib/foo.c'' = ''+++ b/'' @ ''lib'' @ ''/foo.c''
   \<and> canonicalizepatchcontent ''+++ b/lib/foo.c'' ''lib'' = ''+++ b/'' @ canon_tail ''lib'' ''/foo.c''"
proof -
  have h: "re_literal ''lib''" by (simp add: re_literal_def)
  have m: "match_header ''lib'' ''+++ b/lib/foo.c'' = Some (''+++ b/'', ''/foo.c'')"
    by (simp add: match_header_def is_space_def)
  note w = canonicalize_removes_root [OF h m]
  from w have a: "''+++ b/lib/foo.c'' = ''+++ b/'' @ ''lib'' @ ''/foo.c''"
    by (rule conjunct1 [OF conjunct2])
  from w have b: "canonicalizepatchcontent ''+++ b/lib/foo.c'' ''lib''
                    = ''+++ b/'' @ canon_tail ''lib'' ''/foo.c''"
    by (rule conjunct1 [OF conjunct2 [OF conjunct2]])
  from h m a b show ?thesis by (intro conjI)
qed

text \<open>
  C3 as stated fails: with the root path \<open>lib\<close> the line \<open>--- a/lib/foo.c\<close> becomes
  \<open>--- a//foo.c\<close>, not \<open>--- lib/foo.c\<close>: the prefix stays and the root path goes.
\<close>

theorem canonicalize_keeps_prefix_counterexample:
  "re_literal ''lib''
   \<and> canonicalizepatchcontent ''--- a/lib/foo.c'' ''lib'' = ''--- a//foo.c''
   \<and> canonicalizepatchcontent ''--- a/lib/foo.c'' ''lib'' \<noteq> ''--- lib/foo.c''"
  by (simp add: re_literal_def canonicalizepatchcontent_def match_header_def is_space_def)

subsection \<open>Separating the description from the diff\<close>

lemma splitlines_keep_nonempty: "s \<noteq> [] \<Longrightarrow> splitlines_keep s \<noteq> []"
  by (cases s) (auto split: list.splits)

lemma splitlines_keep_LF:
  "splitlines_keep (a @ LF # b) = splitlines_keep (a @ [LF]) @ splitlines_keep b"
proof (induction a rule: length_induct)
  case (1 a)
  show ?case
  proof (cases a)
    case Nil
    then show ?thesis by (simp add: is_eol_def)
  next
    case (Cons c cs)
    note IH = 1 [rule_format]
    show ?thesis
    proof (cases "c = CR \<and> cs @ LF # b \<noteq> [] \<and> hd (cs @ LF # b) = LF")
      case True
      show ?thesis
      proof (cases cs)
        case Nil
        with True Cons show ?thesis by (simp add: is_eol_def)
      next
        case (Cons d ds)
        with True have d: "d = LF" by simp
        have "length ds < length a" using \<open>a = c # cs\<close> Cons by simp
        from IH [OF this] True Cons \<open>a = c # cs\<close> d show ?thesis by simp
      qed
    next
      case False
      then have nf: "\<not> (c = CR \<and> cs @ [LF] \<noteq> [] \<and> hd (cs @ [LF]) = LF)"
        by (cases cs) auto
      have "length cs < length a" using Cons by simp
      note ih = IH [OF this]
      have ne: "splitlines_keep (cs @ [LF]) \<noteq> []" by (rule splitlines_keep_nonempty) simp
      then obtain l ls where lls: "splitlines_keep (cs @ [LF]) = l # ls"
        by (cases "splitlines_keep (cs @ [LF])") auto
      show ?thesis
      proof (cases "is_eol c")
        case True
        with False nf ih Cons show ?thesis by (auto simp: is_eol_def)
      next
        case ne: False
        with False nf ih Cons lls show ?thesis by (auto simp: is_eol_def)
      qed
    qed
  qed
qed

lemma concat_splitlines_keep: "concat (splitlines_keep s) = s"
proof (induction s rule: splitlines_keep.induct)
  case 1
  show ?case by simp
next
  case (2 c cs)
  show ?case
  proof (cases "c = CR \<and> cs \<noteq> [] \<and> hd cs = LF")
    case True
    then have "cs = LF # tl cs" by (cases cs) auto
    with True 2(1) show ?thesis by (metis append_Cons append_Nil concat.simps(2) splitlines_keep.simps(2))
  next
    case False
    with 2 show ?thesis by (auto split: list.splits)
  qed
qed

lemma chomp_Cons: "chomp (c # l) = (if is_eol c then [] else c # chomp l)"
  by (simp add: chomp_def)

lemma chomp_Nil: "chomp [] = []"
  by (simp add: chomp_def)

lemma splitlines_append_LF:
  "map chomp (splitlines_keep (d @ [LF]))
     = splitlines d @ (if d = [] \<or> last d = LF then [[]] else [])"
proof (induction d rule: length_induct)
  case (1 d)
  note IH = 1 [rule_format]
  show ?case
  proof (cases d)
    case Nil
    then show ?thesis by (simp add: splitlines_def chomp_Cons is_eol_def)
  next
    case (Cons c cs)
    show ?thesis
    proof (cases cs)
      case Nil
      with Cons show ?thesis by (auto simp: splitlines_def chomp_Cons chomp_Nil is_eol_def)
    next
      case cs: (Cons e es)
      have l1: "length cs < length d" using Cons by simp
      have l2: "length es < length d" using Cons cs by simp
      show ?thesis
      proof (cases "c = CR \<and> e = LF")
        case True
        with IH [OF l2] Cons cs show ?thesis
          by (auto simp: splitlines_def chomp_Cons is_eol_def)
      next
        case False
        show ?thesis
        proof (cases "is_eol c")
          case True
          with False IH [OF l1] Cons cs show ?thesis
            by (auto simp: splitlines_def chomp_Cons is_eol_def)
        next
          case ne: False
          have n1: "splitlines_keep (cs @ [LF]) \<noteq> []" by (rule splitlines_keep_nonempty) simp
          have n2: "splitlines_keep cs \<noteq> []" by (rule splitlines_keep_nonempty) (simp add: cs)
          from n1 obtain l ls where a: "splitlines_keep (cs @ [LF]) = l # ls"
            by (cases "splitlines_keep (cs @ [LF])") auto
          from n2 obtain l' ls' where b: "splitlines_keep cs = l' # ls'"
            by (cases "splitlines_keep cs") auto
          from IH [OF l1] a b
          have "chomp l # map chomp ls
                  = (chomp l' # map chomp ls') @ (if last cs = LF then [[]] else [])"
            by (simp add: splitlines_def cs)
          then have "chomp l = chomp l'"
            and "map chomp ls = map chomp ls' @ (if last cs = LF then [[]] else [])"
            by simp_all
          moreover have "splitlines_keep (d @ [LF]) = (c # l) # ls"
            using ne a Cons by (auto simp: is_eol_def)
          moreover have "splitlines_keep d = (c # l') # ls'"
            using ne b Cons by (auto simp: is_eol_def)
          moreover have "last d = last cs" using Cons cs by simp
          ultimately show ?thesis using ne Cons by (simp add: splitlines_def chomp_Cons)
        qed
      qed
    qed
  qed
qed

lemma rstrip_append_space: "filter (\<lambda>c. \<not> is_space c) t = [] \<Longrightarrow> rstrip (x @ t) = rstrip x"
proof -
  assume "filter (\<lambda>c. \<not> is_space c) t = []"
  then have "\<And>c. c \<in> set (rev t) \<Longrightarrow> is_space c" by (simp add: filter_empty_conv)
  then have "dropWhile is_space (rev t @ rev x) = dropWhile is_space (rev x)"
    by (rule dropWhile_append2)
  then show ?thesis by (simp add: rstrip_def)
qed

lemma line_tail_eol:
  "l \<in> set (splitlines_keep s) \<Longrightarrow> filter (\<lambda>c. \<not> is_eol c) (dropWhile (\<lambda>c. \<not> is_eol c) l) = []"
proof (induction s arbitrary: l rule: splitlines_keep.induct)
  case 1
  then show ?case by simp
next
  case (2 c cs)
  show ?case
  proof (cases "c = CR \<and> cs \<noteq> [] \<and> hd cs = LF")
    case True
    with 2(1) [OF True] 2(4) show ?thesis by (auto simp: is_eol_def)
  next
    case False
    show ?thesis
    proof (cases "is_eol c")
      case True
      with False 2(2) 2(4) show ?thesis by auto
    next
      case ne: False
      with False 2(3) 2(4) show ?thesis by (auto split: list.splits)
    qed
  qed
qed

lemma rstrip_chomp: "l \<in> set (splitlines_keep s) \<Longrightarrow> rstrip (chomp l) = rstrip l"
proof -
  assume "l \<in> set (splitlines_keep s)"
  from line_tail_eol [OF this]
  have "filter (\<lambda>c. \<not> is_space c) (dropWhile (\<lambda>c. \<not> is_eol c) l) = []"
    by (auto simp: filter_empty_conv is_eol_def is_space_def)
  from rstrip_append_space [OF this, of "takeWhile (\<lambda>c. \<not> is_eol c) l"]
  show ?thesis by (simp add: chomp_def)
qed

lemma startswith_chomp: "filter is_eol m = [] \<Longrightarrow> startswith (chomp l) m = startswith l m"
  by (induction l m rule: startswith.induct) (auto simp: chomp_Cons chomp_Nil split: if_splits)

lemma separate_scan_pre:
  "(\<forall>l\<in>set pre. \<not> is_diff_start l \<and> \<not> startswith l ''Index: '') \<Longrightarrow>
   separate_scan i (pre @ rest) acc = separate_scan (i + length pre) rest (acc @ map rstrip pre)"
  by (induction pre arbitrary: i acc) auto

lemma marker_chomp:
  "is_diff_start (chomp l) = is_diff_start l"
  "startswith (chomp l) ''Index: '' = startswith l ''Index: ''"
  by (simp_all add: is_diff_start_def startswith_chomp is_eol_def)

lemma first_line_startswith:
  "startswith s m \<Longrightarrow> filter is_eol m = [] \<Longrightarrow> m \<noteq> [] \<Longrightarrow>
   splitlines_keep s \<noteq> [] \<and> startswith (hd (splitlines_keep s)) m"
proof (induction s m rule: startswith.induct)
  case (1 s)
  then show ?case by simp
next
  case (2 p ps)
  then show ?case by simp
next
  case (3 c cs p ps)
  from 3(2,3) have c: "c = p" "\<not> is_eol c" and sw: "startswith cs ps" and ps: "filter is_eol ps = []"
    by (auto split: if_splits)
  from c have cr: "c \<noteq> CR" by (auto simp: is_eol_def)
  show ?case
  proof (cases "ps = []")
    case True
    with c cr show ?thesis by (auto split: list.splits)
  next
    case False
    from 3(1) [OF sw ps False] c cr show ?thesis by (auto split: list.splits)
  qed
qed

lemma join_snoc_empty:
  "join sep (xs @ [[]]) = (if xs = [] then [] else join sep xs @ sep)"
  by (induction sep xs rule: join.induct) auto

lemma rstrip_join_snoc_empty: "rstrip (join [LF] (xs @ [[]])) = rstrip (join [LF] xs)"
proof (cases "xs = []")
  case True
  then show ?thesis by simp
next
  case False
  have "rstrip (join [LF] xs @ [LF]) = rstrip (join [LF] xs)"
    by (rule rstrip_append_space) (simp add: is_space_def)
  with False show ?thesis by (simp add: join_snoc_empty)
qed

lemma rstrip_Nil: "rstrip [] = []"
  by (simp add: rstrip_def)

lemma concat_drop_snoc_empty: "concat (drop n (xs @ [[]])) = concat (drop n xs)"
  by (auto simp: drop_append dest: in_set_dropD)

text \<open>The description lines that the loop collects from \<open>description\<close>, a line feed and a blank line.\<close>

lemma desclines_of_description:
  "rstrip (join [LF] (map rstrip (splitlines_keep (description @ [LF]) @ [[LF]])))
     = rstrip (join [LF] (map rstrip (splitlines description)))"
proof -
  let ?L = "splitlines_keep (description @ [LF])"
  let ?X = "map rstrip (splitlines description)"
  have "map rstrip ?L = map rstrip (map chomp ?L)"
    by (simp add: rstrip_chomp [of _ "description @ [LF]"])
  also have "\<dots> = ?X @ (if description = [] \<or> last description = LF then [[]] else [])"
    by (simp only: splitlines_append_LF) (simp add: rstrip_Nil)
  finally have L: "map rstrip ?L = ?X @ (if description = [] \<or> last description = LF then [[]] else [])" .
  have b: "rstrip [LF] = []" by (simp add: rstrip_def is_space_def)
  show ?thesis
  proof (cases "description = [] \<or> last description = LF")
    case True
    with L have "map rstrip (?L @ [[LF]]) = (?X @ [[]]) @ [[]]" by (simp add: b)
    then show ?thesis by (simp only: rstrip_join_snoc_empty)
  next
    case False
    with L have "map rstrip (?L @ [[LF]]) = ?X @ [[]]" by (simp add: b)
    then show ?thesis by (simp only: rstrip_join_snoc_empty)
  qed
qed

lemma description_lines_no_marker:
  assumes "\<forall>l\<in>set (splitlines description). \<not> is_diff_start l \<and> \<not> startswith l ''Index: ''"
  shows "\<forall>l\<in>set (splitlines_keep (description @ [LF]) @ [[LF]]).
           \<not> is_diff_start l \<and> \<not> startswith l ''Index: ''"
proof
  fix l assume l: "l \<in> set (splitlines_keep (description @ [LF]) @ [[LF]])"
  show "\<not> is_diff_start l \<and> \<not> startswith l ''Index: ''"
  proof (cases "l = [LF]")
    case True
    then show ?thesis by (simp add: is_diff_start_def)
  next
    case False
    with l have "l \<in> set (splitlines_keep (description @ [LF]))" by simp
    then have "chomp l \<in> set (map chomp (splitlines_keep (description @ [LF])))" by simp
    then have "chomp l \<in> set (splitlines description) \<or> chomp l = []"
      by (simp only: splitlines_append_LF) (auto split: if_splits)
    then have "\<not> is_diff_start (chomp l) \<and> \<not> startswith (chomp l) ''Index: ''"
      using assms by (auto simp: is_diff_start_def)
    then show ?thesis by (simp add: marker_chomp)
  qed
qed

lemma index_not_diff_start: "startswith m ''Index: '' \<Longrightarrow> \<not> is_diff_start m"
  by (cases m) (auto simp: is_diff_start_def)

lemma splitlines_keep_content:
  "splitlines_keep (description @ [LF, LF] @ diffbody)
     = (splitlines_keep (description @ [LF]) @ [[LF]]) @ splitlines_keep diffbody"
proof -
  have "splitlines_keep (description @ LF # (LF # diffbody))
          = splitlines_keep (description @ [LF]) @ splitlines_keep (LF # diffbody)"
    by (rule splitlines_keep_LF)
  then show ?thesis by (simp add: is_eol_def)
qed

lemma separate_result:
  "separate_scan 0 (splitlines_keep c @ [[]]) [] = (i, dl) \<Longrightarrow>
   separatepatchdescription c
     = (lstrip (concat (drop i (splitlines_keep c @ [[]]))), rstrip (join [LF] dl))"
  by (simp add: separatepatchdescription_def)

text \<open>
  C8, as amended.  For every description none of whose lines begins with a diff-start
  marker (\<open>--- \<close>, \<open>diff --git\<close>, \<open>rename from\<close>, \<open>Index: \<close>) and every diff body:
  when the diff body begins with \<open>--- \<close>, \<open>diff --git\<close> or \<open>rename from\<close>,
  separateDescription applied to the description, a blank line and the diff body
  returns the diff body with leading white space trimmed, and the description with
  every line right-trimmed, the lines joined by line feeds, and the whole
  right-trimmed; when the diff body begins with \<open>Index: \<close>, the description is the
  same and the diff returned is the diff body without its first two lines.
\<close>

theorem separatepatchdescription_inverse:
  assumes "\<forall>l\<in>set (splitlines description). \<not> is_diff_start l \<and> \<not> startswith l ''Index: ''"
  shows "(is_diff_start diffbody \<longrightarrow>
            separatepatchdescription (description @ [LF, LF] @ diffbody)
              = (lstrip diffbody, rstrip (join [LF] (map rstrip (splitlines description)))))
       \<and> (startswith diffbody ''Index: '' \<longrightarrow>
            separatepatchdescription (description @ [LF, LF] @ diffbody)
              = (lstrip (concat (drop 2 (splitlines_keep diffbody))),
                 rstrip (join [LF] (map rstrip (splitlines description)))))"
proof (intro conjI impI)
  let ?pre = "splitlines_keep (description @ [LF]) @ [[LF]]"
  let ?D = "splitlines_keep diffbody"
  let ?desc = "rstrip (join [LF] (map rstrip (splitlines description)))"
  have lines: "splitlines_keep (description @ [LF, LF] @ diffbody) @ [[]] = ?pre @ (?D @ [[]])"
    by (simp only: splitlines_keep_content append_assoc)
  have nm: "\<forall>l\<in>set ?pre. \<not> is_diff_start l \<and> \<not> startswith l ''Index: ''"
    by (rule description_lines_no_marker [OF assms])
  have scan: "separate_scan 0 (?pre @ (?D @ [[]])) []
                = separate_scan (length ?pre) (?D @ [[]]) (map rstrip ?pre)"
    using separate_scan_pre [OF nm, of 0 "?D @ [[]]" "[]"] by simp
  have desc: "rstrip (join [LF] (map rstrip ?pre)) = ?desc"
    by (rule desclines_of_description)
  {
    assume "is_diff_start diffbody"
    then have "?D \<noteq> [] \<and> is_diff_start (hd ?D)"
      unfolding is_diff_start_def
      using first_line_startswith [of diffbody "''--- ''"]
        first_line_startswith [of diffbody "''diff --git''"]
        first_line_startswith [of diffbody "''rename from''"]
      by (auto simp: is_eol_def)
    then obtain m rest where D: "?D = m # rest" and m: "is_diff_start m"
      by (cases ?D) auto
    have "separate_scan (length ?pre) (?D @ [[]]) (map rstrip ?pre) = (length ?pre, map rstrip ?pre)"
      using D m by simp
    with scan have "separate_scan 0 (?pre @ (?D @ [[]])) [] = (length ?pre, map rstrip ?pre)"
      by simp
    then have "separate_scan 0 (splitlines_keep (description @ [LF, LF] @ diffbody) @ [[]]) []
                 = (length ?pre, map rstrip ?pre)"
      by (simp only: lines)
    from separate_result [OF this]
    have "separatepatchdescription (description @ [LF, LF] @ diffbody)
            = (lstrip (concat (drop (length ?pre) (?pre @ (?D @ [[]])))),
               rstrip (join [LF] (map rstrip ?pre)))"
      by (simp only: lines)
    moreover have "concat (drop (length ?pre) (?pre @ (?D @ [[]]))) = diffbody"
      using concat_splitlines_keep [of diffbody] by simp
    ultimately show "separatepatchdescription (description @ [LF, LF] @ diffbody)
              = (lstrip diffbody, ?desc)"
      by (simp only: desc)
  }
  {
    assume "startswith diffbody ''Index: ''"
    then have "?D \<noteq> [] \<and> startswith (hd ?D) ''Index: ''"
      using first_line_startswith [of diffbody "''Index: ''"] by (simp add: is_eol_def)
    then obtain m rest where D: "?D = m # rest" and m: "startswith m ''Index: ''"
      by (cases ?D) auto
    have "separate_scan (length ?pre) (?D @ [[]]) (map rstrip ?pre)
            = (length ?pre + 2, map rstrip ?pre)"
      using D m index_not_diff_start [OF m] by simp
    with scan have "separate_scan 0 (?pre @ (?D @ [[]])) [] = (length ?pre + 2, map rstrip ?pre)"
      by simp
    then have "separate_scan 0 (splitlines_keep (description @ [LF, LF] @ diffbody) @ [[]]) []
                 = (length ?pre + 2, map rstrip ?pre)"
      by (simp only: lines)
    from separate_result [OF this]
    have "separatepatchdescription (description @ [LF, LF] @ diffbody)
            = (lstrip (concat (drop (length ?pre + 2) (?pre @ (?D @ [[]])))),
               rstrip (join [LF] (map rstrip ?pre)))"
      by (simp only: lines)
    moreover have "drop (length ?pre + 2) (?pre @ (?D @ [[]])) = drop 2 (?D @ [[]])"
      by simp
    then have "concat (drop (length ?pre + 2) (?pre @ (?D @ [[]]))) = concat (drop 2 ?D)"
      by (simp only: concat_drop_snoc_empty)
    ultimately show "separatepatchdescription (description @ [LF, LF] @ diffbody)
              = (lstrip (concat (drop 2 ?D)), ?desc)"
      by (simp only: desc)
  }
qed

theorem separatepatchdescription_inverse_witness:
  "filter (\<lambda>l. is_diff_start l \<or> startswith l ''Index: '') (splitlines (''fix  '' @ [LF] @ ''it'')) = []
   \<and> is_diff_start (''--- a/f'' @ [LF])
   \<and> separatepatchdescription ((''fix  '' @ [LF] @ ''it'') @ [LF, LF] @ (''--- a/f'' @ [LF]))
       = (''--- a/f'' @ [LF], ''fix'' @ [LF] @ ''it'')"
proof -
  have h: "\<forall>l\<in>set (splitlines (''fix  '' @ [LF] @ ''it'')).
       \<not> is_diff_start l \<and> \<not> startswith l ''Index: ''"
    by (simp add: splitlines_def chomp_def is_eol_def is_diff_start_def)
  have d: "is_diff_start (''--- a/f'' @ [LF])" by (simp add: is_diff_start_def)
  have l: "lstrip (''--- a/f'' @ [LF]) = ''--- a/f'' @ [LF]"
    by (simp add: lstrip_def is_space_def)
  have r: "rstrip (join [LF] (map rstrip (splitlines (''fix  '' @ [LF] @ ''it''))))
             = ''fix'' @ [LF] @ ''it''"
    by (simp add: splitlines_def chomp_def is_eol_def rstrip_def is_space_def)
  from separatepatchdescription_inverse [OF h, of "''--- a/f'' @ [LF]"] d
  have "separatepatchdescription ((''fix  '' @ [LF] @ ''it'') @ [LF, LF] @ (''--- a/f'' @ [LF]))
          = (lstrip (''--- a/f'' @ [LF]),
             rstrip (join [LF] (map rstrip (splitlines (''fix  '' @ [LF] @ ''it'')))))"
    by (rule conjunct1 [THEN mp])
  then have "separatepatchdescription ((''fix  '' @ [LF] @ ''it'') @ [LF, LF] @ (''--- a/f'' @ [LF]))
       = (''--- a/f'' @ [LF], ''fix'' @ [LF] @ ''it'')"
    by (simp only: l r)
  moreover from h
  have "filter (\<lambda>l. is_diff_start l \<or> startswith l ''Index: '') (splitlines (''fix  '' @ [LF] @ ''it'')) = []"
    by (simp add: filter_empty_conv)
  ultimately show ?thesis using d by (intro conjI)
qed

text \<open>
  C8 as stated fails twice.  A diff body that begins with \<open>Index: \<close> comes back
  without its first two lines, which is more than a leading trim; and a description
  with white space at the end of an inner line comes back with that white space
  gone, which is more than a trailing trim of the description.
\<close>

theorem separatepatchdescription_counterexample:
  "separatepatchdescription
      (''d'' @ [LF, LF] @ (''Index: f'' @ [LF] @ ''==='' @ [LF] @ ''--- a/f'' @ [LF]))
     = (''--- a/f'' @ [LF], ''d'')
   \<and> lstrip (''Index: f'' @ [LF] @ ''==='' @ [LF] @ ''--- a/f'' @ [LF])
       = ''Index: f'' @ [LF] @ ''==='' @ [LF] @ ''--- a/f'' @ [LF]
   \<and> separatepatchdescription ((''fix  '' @ [LF] @ ''it'') @ [LF, LF] @ (''--- a/f'' @ [LF]))
       = (''--- a/f'' @ [LF], ''fix'' @ [LF] @ ''it'')
   \<and> rstrip (''fix  '' @ [LF] @ ''it'') = ''fix  '' @ [LF] @ ''it''"
  by (simp add: separatepatchdescription_def is_diff_start_def is_eol_def lstrip_def rstrip_def
      is_space_def)

subsection \<open>The series file in pop\<close>

lemma splitlines_keep_joined:
  "filter (\<lambda>n. filter is_eol n \<noteq> []) names = [] \<Longrightarrow> names \<noteq> [] \<Longrightarrow>
   splitlines_keep (join [LF] names @ [LF]) = map (\<lambda>n. n @ [LF]) names"
proof (induction "[LF]" names rule: join.induct)
  case 1
  then show ?case by simp
next
  case (2 x)
  then have x: "filter is_eol x = []" by (simp split: if_splits)
  from splitlines_keep_no_eol [OF x, of "[]"] show ?case by simp
next
  case (3 x y ys)
  from 3(2) have x: "filter is_eol x = []"
    and r: "filter (\<lambda>n. filter is_eol n \<noteq> []) (y # ys) = []"
    by (simp_all split: if_splits)
  from 3(1) [OF r] have "splitlines_keep (join [LF] (y # ys) @ [LF]) = map (\<lambda>n. n @ [LF]) (y # ys)"
    by simp
  with splitlines_keep_no_eol [OF x, of "join [LF] (y # ys) @ [LF]"] show ?case by simp
qed

lemma splitlines_joined:
  assumes "filter (\<lambda>n. filter is_eol n \<noteq> []) names = []" and "names \<noteq> []"
  shows "splitlines (join [LF] names @ [LF]) = names"
proof -
  have "map chomp (map (\<lambda>n. n @ [LF]) names) = names"
    using assms(1)
  proof (induction names)
    case Nil
    show ?case by simp
  next
    case (Cons n ns)
    then have n: "filter is_eol n = []" and ns: "filter (\<lambda>n. filter is_eol n \<noteq> []) ns = []"
      by (simp_all split: if_splits)
    from chomp_append_LF [OF n, of "[]"] Cons.IH [OF ns] show ?case by simp
  qed
  with splitlines_keep_joined [OF assms] show ?thesis by (simp add: splitlines_def)
qed

lemma series_patches_lines:
  "filter (\<lambda>n. filter is_eol n \<noteq> []) (series_patches s) = []"
  by (auto simp: filter_empty_conv dest!: series_patches_no_eol)

lemma filter_take_empty: "filter P xs = [] \<Longrightarrow> filter P (take k xs) = []"
  by (auto simp: filter_empty_conv dest: in_set_takeD)


lemma series_patches_active:
  "filter (\<lambda>l. l = [] \<or> startswith l ''#'') (series_patches s) = []"
  by (auto simp: series_patches_def filter_empty_conv)

text \<open>
  C2, as amended.  The content that pop writes to the series file in iteration \<open>i\<close>
  is made of the active names only: the first \<open>n - i - 1\<close> of the \<open>n\<close> active names
  of the original file, each followed by a line feed, or a single line feed when
  none is left.  Read back, the file has exactly those names as its lines; no blank
  line and no line starting with \<open>#\<close> of the original file is among them.
\<close>

theorem series_rewrite_active_only:
  "series_rewrite (series_patches origseries) i
     = join [LF] (take (length (series_patches origseries) - i - 1) (series_patches origseries)) @ [LF]
   \<and> splitlines (series_rewrite (series_patches origseries) i)
     = (if take (length (series_patches origseries) - i - 1) (series_patches origseries) = []
        then [[]]
        else take (length (series_patches origseries) - i - 1) (series_patches origseries))
   \<and> filter (\<lambda>l. l = [] \<or> startswith l ''#'')
        (take (length (series_patches origseries) - i - 1) (series_patches origseries)) = []"
proof -
  let ?r = "take (length (series_patches origseries) - i - 1) (series_patches origseries)"
  have e: "filter (\<lambda>n. filter is_eol n \<noteq> []) ?r = []"
    by (rule filter_take_empty) (rule series_patches_lines)
  have a: "filter (\<lambda>l. l = [] \<or> startswith l ''#'') ?r = []"
    by (rule filter_take_empty) (rule series_patches_active)
  have s: "splitlines (join [LF] ?r @ [LF]) = (if ?r = [] then [[]] else ?r)"
  proof (cases "?r = []")
    case True
    have "splitlines (join [LF] [] @ [LF]) = [[]]"
      by (simp add: splitlines_def chomp_def is_eol_def)
    with True show ?thesis by (simp only: if_True simp_thms)
  next
    case False
    with splitlines_joined [OF e False] show ?thesis by (simp only: if_False simp_thms)
  qed
  have d: "series_rewrite (series_patches origseries) i = join [LF] ?r @ [LF]"
    by (simp only: series_rewrite_def)
  from d s a show ?thesis by (simp only: simp_thms)
qed

text \<open>
  C2 as stated fails: in the scenario the series file begins with the comment line
  \<open># local\<close>; after popping one patch, with every collaborator succeeding, the file
  holds the two remaining names and nothing else.
\<close>

theorem pop_drops_comment_lines:
  "files scenario_world ''lib/patches/series''
     = Some (''# local'' @ [LF] @ ''a'' @ [LF] @ ''b'' @ [LF] @ ''c'' @ [LF])
   \<and> fst (pop_series (scenario_ext ''none'') (scenario_args 1) scenario_world) = Inr Popped
   \<and> files (snd (pop_series (scenario_ext ''none'') (scenario_args 1) scenario_world))
        ''lib/patches/series'' = Some (''a'' @ [LF] @ ''b'' @ [LF])"
  by code_simp

subsection \<open>Failure handling in pop\<close>

text \<open>
  C1.  Whenever pop, having read the series file, ends with an exception, that
  exception was raised inside the \<open>try\<close> statement that begins with the first
  rewrite of the series file, in some state; the state pop leaves is that state with
  the series file written back, so the series file holds exactly the bytes read
  before the operation, whatever the collaborators did in between.  The same
  exception goes on to the caller.
\<close>

theorem pop_restores_series:
  assumes "files w (reljoin (pop_rootpath args) [''patches'', ''series'']) = Some origseries"
    and "pop_series ext args w = (Inl e, w')"
  shows "files w' (reljoin (pop_rootpath args) [''patches'', ''series'']) = Some origseries
       \<and> (\<exists>w1. pop_try ext args (reljoin (pop_rootpath args) [''patches'', ''series''])
                  (series_patches origseries)
                  (if pop_popall args then length (series_patches origseries)
                   else pop_patchestopop args) w = (Inl e, w1)
               \<and> w' = w1\<lparr>files := (files w1)(reljoin (pop_rootpath args) [''patches'', ''series'']
                                                 \<mapsto> origseries)\<rparr>)"
proof -
  let ?sp = "reljoin (pop_rootpath args) [''patches'', ''series'']"
  let ?n = "if pop_popall args then length (series_patches origseries) else pop_patchestopop args"
  obtain r w1 where t: "pop_try ext args ?sp (series_patches origseries) ?n w = (r, w1)"
    by (cases "pop_try ext args ?sp (series_patches origseries) ?n w")
  from assms t have "r = Inl e \<and> w' = w1\<lparr>files := (files w1)(?sp \<mapsto> origseries)\<rparr>"
    by (cases r) (auto simp: pop_series_def Let_def split: if_splits)
  with t show ?thesis by auto
qed

theorem pop_restores_series_witness:
  "files scenario_world ''lib/patches/series'' = Some scenario_series
   \<and> fst (pop_series (scenario_ext (''--- a/fb'' @ [LF])) (scenario_args 3) scenario_world)
       = Inl (Abort ''b: failed to apply patch'')
   \<and> files (snd (pop_series (scenario_ext (''--- a/fb'' @ [LF])) (scenario_args 3) scenario_world))
       ''lib/patches/series'' = Some scenario_series"
proof -
  let ?run = "pop_series (scenario_ext (''--- a/fb'' @ [LF])) (scenario_args 3) scenario_world"
  have p: "reljoin (pop_rootpath (scenario_args 3)) [''patches'', ''series''] = ''lib/patches/series''"
    by code_simp
  have h: "files scenario_world (reljoin (pop_rootpath (scenario_args 3)) [''patches'', ''series''])
             = Some scenario_series"
    by code_simp
  have f: "fst ?run = Inl (Abort ''b: failed to apply patch'')"
    by code_simp
  then have r: "?run = (Inl (Abort ''b: failed to apply patch''), snd ?run)"
    by (simp add: prod_eq_iff)
  from pop_restores_series [OF h r]
  have "files (snd ?run) (reljoin (pop_rootpath (scenario_args 3)) [''patches'', ''series''])
          = Some scenario_series"
    by (rule conjunct1)
  with h f show ?thesis by (simp only: p simp_thms)
qed

subsection \<open>Rebase targets of pop\<close>

lemma filter_upt_above:
  "filter (\<lambda>r. d < r \<and> P r) [0..<n] = filter P [Suc d..<n]"
proof (cases "Suc d \<le> n")
  case True
  then have "[0..<n] = [0..<Suc d] @ [Suc d..<n]"
    by (metis le0 upt_add_eq_append le_add_diff_inverse)
  moreover have "filter (\<lambda>r. d < r \<and> P r) [0..<Suc d] = []"
    by (auto simp: filter_empty_conv)
  moreover have "filter (\<lambda>r. d < r \<and> P r) [Suc d..<n] = filter P [Suc d..<n]"
    by (rule filter_cong) auto
  ultimately show ?thesis by simp
next
  case False
  then show ?thesis by (auto simp: filter_empty_conv)
qed

lemma revset_children_single: "revset_children repo [dot] = children repo dot"
  by (simp add: revset_children_def children_def filter_upt_above)

lemma children_nonpublic:
  assumes "phases_consistent repo" and "c_phase (repo ! dot) \<noteq> Public"
  shows "filter (\<lambda>c. c_phase (repo ! c) \<noteq> Public) (children repo dot) = children repo dot"
proof -
  have "c_phase (repo ! c) \<noteq> Public" if "c \<in> set (children repo dot)" for c
  proof -
    from that have c: "c < length repo" and p: "dot \<in> set (c_parents (repo ! c))"
      by (auto simp: children_def)
    from assms(1) c p have "c_phase (repo ! c) = Public \<longrightarrow> c_phase (repo ! dot) = Public"
      by (auto simp: phases_consistent_def list_all_iff)
    with assms(2) show ?thesis by auto
  qed
  then show ?thesis by (simp add: filter_id_conv)
qed

text \<open>
  What lines 548 to 552 compute in a repository whose phases are consistent: the
  revset given with \<open>--rebase\<close> when there is one; nothing when a new base is created;
  otherwise the children of the base when the base is not public, which are then its
  non-public children, and nothing when the base is public.
\<close>

lemma pop_rebaserevs_computed:
  assumes "phases_consistent repo"
  shows "pop_rebaserevs revs repo dot [] True = []
       \<and> pop_rebaserevs revs repo dot [] False
           = (if c_phase (repo ! dot) = Public then []
              else filter (\<lambda>c. c_phase (repo ! c) \<noteq> Public) (children repo dot))
       \<and> (rebaseopt \<noteq> [] \<longrightarrow> pop_rebaserevs revs repo dot rebaseopt createnew = revs rebaseopt)"
proof (intro conjI impI)
  show "pop_rebaserevs revs repo dot [] True = []" by (simp add: pop_rebaserevs_def)
  show "pop_rebaserevs revs repo dot [] False
           = (if c_phase (repo ! dot) = Public then []
              else filter (\<lambda>c. c_phase (repo ! c) \<noteq> Public) (children repo dot))"
  proof (cases "c_phase (repo ! dot) = Public")
    case True
    then show ?thesis by (simp add: pop_rebaserevs_def revset_children_def)
  next
    case False
    with children_nonpublic [OF assms False] show ?thesis
      by (simp add: pop_rebaserevs_def revset_children_single)
  qed
  assume "rebaseopt \<noteq> []"
  then show "pop_rebaserevs revs repo dot rebaseopt createnew = revs rebaseopt"
    by (simp add: pop_rebaserevs_def)
qed

lemma pop_rebaserevs_draft_base:
  "phases_consistent scenario_repo
   \<and> c_phase (scenario_repo ! 2) = Draft
   \<and> pop_rebaserevs (\<lambda>s. []) scenario_repo 2 [] False = [3, 4]
   \<and> pop_rebaserevs (\<lambda>s. []) scenario_repo 2 [] True = []"
proof -
  have h: "phases_consistent scenario_repo" by code_simp
  have d: "c_phase (scenario_repo ! 2) = Draft" by code_simp
  have c: "filter (\<lambda>c. c_phase (scenario_repo ! c) \<noteq> Public) (children scenario_repo 2) = [3, 4]"
    by code_simp
  note t = pop_rebaserevs_computed [OF h, of "\<lambda>s. []" 2 "[]" False]
  from t have a: "pop_rebaserevs (\<lambda>s. []) scenario_repo 2 [] True = []" by (rule conjunct1)
  from t have "pop_rebaserevs (\<lambda>s. []) scenario_repo 2 [] False
           = (if c_phase (scenario_repo ! 2) = Public then []
              else filter (\<lambda>c. c_phase (scenario_repo ! c) \<noteq> Public) (children scenario_repo 2))"
    by (rule conjunct1 [OF conjunct2])
  with d c have b: "pop_rebaserevs (\<lambda>s. []) scenario_repo 2 [] False = [3, 4]" by simp
  from h d a b show ?thesis by (intro conjI)
qed


subsection \<open>The patch chain of fold\<close>

lemma chain_walk_result:
  "chain_walk repo foldall n t acc = Inr res \<Longrightarrow>
   \<exists>revs. res = acc @ revs \<and> patch_chain repo t revs
     \<and> (foldall \<or> length res \<noteq> n \<longrightarrow> patch_children repo (last (t # revs)) = Inr [])"
proof (induction repo foldall n t acc rule: chain_walk.induct)
  case (1 repo foldall n t acc)
  show ?case
  proof (cases "foldall \<or> length acc \<noteq> n")
    case False
    with 1(2) have "res = acc" by (simp split: if_splits)
    with False show ?thesis by (intro exI [of _ "[]"]) simp
  next
    case True
    from True 1(2) obtain patches where pc: "patch_children repo t = Inr patches"
      by (cases "patch_children repo t") (auto split: if_splits)
    from True 1(2) pc have le: "\<not> 1 < length patches" by (auto split: if_splits)
    show ?thesis
    proof (cases patches)
      case Nil
      with True 1(2) pc have "res = acc" by simp
      with pc Nil show ?thesis by (intro exI [of _ "[]"]) simp
    next
      case (Cons p ps)
      with le have ps: "ps = []" by simp
      from True 1(2) pc Cons le have w: "chain_walk repo foldall n p (acc @ [p]) = Inr res" by simp
      from 1(1) [OF True pc le Cons w] obtain revs where
        r: "res = (acc @ [p]) @ revs" and c: "patch_chain repo p revs"
        and s: "foldall \<or> length res \<noteq> n \<longrightarrow> patch_children repo (last (p # revs)) = Inr []"
        by blast
      from r c s pc Cons ps show ?thesis by (intro exI [of _ "p # revs"]) simp
    qed
  qed
qed

lemma chain_walk_count:
  "chain_walk repo foldall n t acc = Inr res \<Longrightarrow> \<not> foldall \<Longrightarrow> length acc \<le> n \<Longrightarrow> length res \<le> n"
proof (induction repo foldall n t acc rule: chain_walk.induct)
  case (1 repo foldall n t acc)
  show ?case
  proof (cases "length acc = n")
    case True
    with 1(2,3) show ?thesis by simp
  next
    case False
    then have g: "foldall \<or> length acc \<noteq> n" by simp
    from g 1(2) obtain patches where pc: "patch_children repo t = Inr patches"
      by (cases "patch_children repo t") (auto split: if_splits)
    from g 1(2) pc have le: "\<not> 1 < length patches" by (auto split: if_splits)
    show ?thesis
    proof (cases patches)
      case Nil
      with g 1(2) pc have "res = acc" by simp
      with 1(4) show ?thesis by simp
    next
      case (Cons p ps)
      from g 1(2) pc Cons le have w: "chain_walk repo foldall n p (acc @ [p]) = Inr res" by simp
      from False 1(4) have "length (acc @ [p]) \<le> n" by simp
      from 1(1) [OF g pc le Cons w 1(3) this] show ?thesis .
    qed
  qed
qed

lemma chain_walk_ambiguous:
  "patch_chain repo t revs \<Longrightarrow> foldall \<or> length acc + length revs < n \<Longrightarrow>
   patch_children repo (last (t # revs)) = Inr ps \<Longrightarrow> 1 < length ps \<Longrightarrow>
   chain_walk repo foldall n t acc
     = Inl (Abort (reverr (c_hex (repo ! last (t # revs))) ''ambiguous chain: multiple patch children''))"
proof (induction revs arbitrary: t acc)
  case Nil
  then show ?case by (subst chain_walk.simps) auto
next
  case (Cons r rs)
  from Cons.prems(1) have pc: "patch_children repo t = Inr [r]" and c: "patch_chain repo r rs"
    by simp_all
  from Cons.prems(2) have g: "foldall \<or> length acc \<noteq> n" by auto
  from Cons.prems(2) have g': "foldall \<or> length (acc @ [r]) + length rs < n" by auto
  from Cons.prems(3) have l: "patch_children repo (last (r # rs)) = Inr ps" by simp
  have "chain_walk repo foldall n t acc = chain_walk repo foldall n r (acc @ [r])"
    using g pc by (subst chain_walk.simps) auto
  also have "\<dots> = Inl (Abort (reverr (c_hex (repo ! last (r # rs))) ''ambiguous chain: multiple patch children''))"
    by (rule Cons.IH [OF c g' l Cons.prems(4)])
  finally show ?case by simp
qed

lemma chain_walk_complete:
  "patch_chain repo t revs \<Longrightarrow> foldall \<or> length acc + length revs \<le> n \<Longrightarrow>
   (\<not> foldall \<and> length acc + length revs = n) \<or> patch_children repo (last (t # revs)) = Inr [] \<Longrightarrow>
   chain_walk repo foldall n t acc = Inr (acc @ revs)"
proof (induction revs arbitrary: t acc)
  case Nil
  then show ?case by (subst chain_walk.simps) auto
next
  case (Cons r rs)
  from Cons.prems(1) have pc: "patch_children repo t = Inr [r]" and c: "patch_chain repo r rs"
    by simp_all
  from Cons.prems(2) have g: "foldall \<or> length acc \<noteq> n" by auto
  from Cons.prems(2) have g': "foldall \<or> length (acc @ [r]) + length rs \<le> n" by auto
  from Cons.prems(3) have l: "(\<not> foldall \<and> length (acc @ [r]) + length rs = n)
      \<or> patch_children repo (last (r # rs)) = Inr []" by auto
  have "chain_walk repo foldall n t acc = chain_walk repo foldall n r (acc @ [r])"
    using g pc by (subst chain_walk.simps) auto
  also have "\<dots> = Inr ((acc @ [r]) @ rs)"
    by (rule Cons.IH [OF c g' l])
  finally show ?case by simp
qed

text \<open>
  C7, as amended.  Without \<open>--rev\<close>, fold walks down from the resolved target, and the
  walk always ends.  When it returns a chain, each member is the one and only Patch child of the
  one before (the first, of the target); in count mode the chain has at most \<open>count\<close>
  members; and unless it stopped in count mode with \<open>count\<close> members collected, the
  last commit reached has no Patch child.  Conversely every such chain is the one
  returned.  When a commit whose children the walk examines (the target or a member
  of the chain, reached before \<open>count\<close> members are collected in count mode) has
  more than one Patch child, the walk aborts with the ambiguous-chain error for that
  commit; the children of the last member collected when \<open>count\<close> is reached are not
  examined, and the walk returns even when that member has several Patch children.
  When the resolved chain is empty, fold returns with its warning and leaves the
  state as it was.
\<close>

theorem fold_chain_resolution:
  "(chain_walk repo foldall n t [] = Inr revs \<longrightarrow>
      patch_chain repo t revs \<and> (\<not> foldall \<longrightarrow> length revs \<le> n)
      \<and> (foldall \<or> length revs \<noteq> n \<longrightarrow> patch_children repo (last (t # revs)) = Inr []))
   \<and> (patch_chain repo t revs \<and> (foldall \<or> length revs \<le> n)
        \<and> ((\<not> foldall \<and> length revs = n) \<or> patch_children repo (last (t # revs)) = Inr [])
      \<longrightarrow> chain_walk repo foldall n t [] = Inr revs)
   \<and> (patch_chain repo t revs \<and> (foldall \<or> length revs < n)
        \<and> patch_children repo (last (t # revs)) = Inr ps \<and> 1 < length ps
      \<longrightarrow> chain_walk repo foldall n t []
            = Inl (Abort (reverr (c_hex (repo ! last (t # revs)))
                            ''ambiguous chain: multiple patch children'')))
   \<and> (0 \<le> count
        \<and> chain_walk repo foldall (if \<not> foldall \<and> count = 0 then 1 else nat count) t [] = Inr []
      \<longrightarrow> fold_implicit fold_rest repo foldall count t w = (Inr NoPatchesToFold, w))"
proof (intro conjI impI)
  assume r: "chain_walk repo foldall n t [] = Inr revs"
  from chain_walk_result [OF r] show "patch_chain repo t revs" by simp
  from chain_walk_result [OF r]
  show "patch_children repo (last (t # revs)) = Inr []" if "foldall \<or> length revs \<noteq> n"
    using that by simp
  show "length revs \<le> n" if "\<not> foldall"
    using chain_walk_count [OF r that] by simp
next
  assume "patch_chain repo t revs \<and> (foldall \<or> length revs \<le> n)
        \<and> ((\<not> foldall \<and> length revs = n) \<or> patch_children repo (last (t # revs)) = Inr [])"
  then show "chain_walk repo foldall n t [] = Inr revs"
    using chain_walk_complete [of repo t revs foldall "[]" n] by simp
next
  assume "patch_chain repo t revs \<and> (foldall \<or> length revs < n)
        \<and> patch_children repo (last (t # revs)) = Inr ps \<and> 1 < length ps"
  then show "chain_walk repo foldall n t []
            = Inl (Abort (reverr (c_hex (repo ! last (t # revs)))
                            ''ambiguous chain: multiple patch children''))"
    using chain_walk_ambiguous [of repo t revs foldall "[]" n ps] by simp
next
  assume "0 \<le> count
        \<and> chain_walk repo foldall (if \<not> foldall \<and> count = 0 then 1 else nat count) t [] = Inr []"
  then show "fold_implicit fold_rest repo foldall count t w = (Inr NoPatchesToFold, w)"
    by (simp add: fold_implicit_def Let_def)
qed

theorem fold_chain_resolution_witness:
  "chain_walk scenario_repo False 2 0 [] = Inr [1, 2]
   \<and> patch_chain scenario_repo 0 [1, 2]
   \<and> patch_children scenario_repo 2 = Inr [3, 4]
   \<and> chain_walk scenario_repo True 0 0 []
       = Inl (Abort ''rev c2: ambiguous chain: multiple patch children'')
   \<and> chain_walk scenario_repo True 0 3 [] = Inr []
   \<and> fold_implicit (\<lambda>revs. raise AssertionError) scenario_repo True 0 3 scenario_world
       = (Inr NoPatchesToFold, scenario_world)"
proof -
  have a: "chain_walk scenario_repo False 2 0 [] = Inr [1, 2]" by code_simp
  have b: "patch_children scenario_repo 2 = Inr [3, 4]" by code_simp
  have e: "chain_walk scenario_repo True 0 3 [] = Inr []" by code_simp
  have h: "reverr (c_hex (scenario_repo ! last (0 # [1, 2]))) ''ambiguous chain: multiple patch children''
             = ''rev c2: ambiguous chain: multiple patch children''"
    by code_simp
  from fold_chain_resolution [of scenario_repo False 2 0 "[1, 2]" "[3, 4]" 0 "\<lambda>revs. raise AssertionError" scenario_world] a
  have c: "patch_chain scenario_repo 0 [1, 2]" by blast
  from fold_chain_resolution [of scenario_repo True 0 0 "[1, 2]" "[3, 4]" 0 "\<lambda>revs. raise AssertionError" scenario_world] c b
  have "chain_walk scenario_repo True 0 0 []
          = Inl (Abort (reverr (c_hex (scenario_repo ! last (0 # [1, 2])))
                          ''ambiguous chain: multiple patch children''))"
    by simp
  then have d: "chain_walk scenario_repo True 0 0 []
       = Inl (Abort ''rev c2: ambiguous chain: multiple patch children'')"
    by (simp only: h)
  from fold_chain_resolution [of scenario_repo True 0 3 "[]" "[]" 0 "\<lambda>revs. raise AssertionError" scenario_world] e
  have f: "fold_implicit (\<lambda>revs. raise AssertionError) scenario_repo True 0 3 scenario_world
       = (Inr NoPatchesToFold, scenario_world)"
    by simp
  from a c b d e f show ?thesis by (intro conjI)
qed

text \<open>
  C7 as stated fails for the last commit collected in count mode: in the small
  repository the walk for a count of 2 from revision 0 returns the chain of revisions
  1 and 2 and does not abort, although revision 2, a member of the chain, has the two
  Patch children 3 and 4.
\<close>

theorem fold_chain_count_reached:
  "chain_walk scenario_repo False 2 0 [] = Inr [1, 2]
   \<and> patch_children scenario_repo 2 = Inr [3, 4]"
  by code_simp

subsection \<open>The stored description of a commit\<close>

lemma rstrip_last: "rstrip s \<noteq> [] \<Longrightarrow> \<not> is_space (last (rstrip s))"
proof -
  assume a: "rstrip s \<noteq> []"
  then have "dropWhile is_space (rev s) \<noteq> []" by (simp add: rstrip_def)
  then have "\<not> is_space (hd (dropWhile is_space (rev s)))" by (rule hd_dropWhile)
  with a show ?thesis by (simp add: rstrip_def last_rev)
qed

lemma rstrip_fixed: "s = [] \<or> \<not> is_space (last s) \<Longrightarrow> rstrip s = s"
proof (cases "s = []")
  case True
  then show ?thesis by (simp add: rstrip_def)
next
  case False
  assume "s = [] \<or> \<not> is_space (last s)"
  with False have "\<not> is_space (hd (rev s))" by (simp add: hd_rev)
  with False have "dropWhile is_space (rev s) = rev s" by (cases "rev s") auto
  then show ?thesis by (simp add: rstrip_def)
qed

lemma rstrip_idem: "rstrip (rstrip s) = rstrip s"
  using rstrip_last [of s] by (intro rstrip_fixed) auto

lemma rstrip_append: "rstrip (a @ b) = (if rstrip b = [] then rstrip a else a @ rstrip b)"
  by (induction a) (auto simp: rstrip_Cons rstrip_Nil)

lemma rstrip_no_eol: "filter is_eol s = [] \<Longrightarrow> filter is_eol (rstrip s) = []"
  by (auto simp: rstrip_def filter_empty_conv dest: set_dropWhileD)

lemma strip_empty_iff: "strip s = [] \<longleftrightarrow> rstrip s = []"
proof
  assume "strip s = []"
  show "rstrip s = []"
  proof (rule ccontr)
    assume n: "rstrip s \<noteq> []"
    from rstrip_last [OF n] have "last (rstrip s) \<in> set (rstrip s) \<and> \<not> is_space (last (rstrip s))"
      using n by simp
    then have "dropWhile is_space (rstrip s) \<noteq> []" by (auto simp: dropWhile_eq_Nil_conv)
    with \<open>strip s = []\<close> show False by (simp add: strip_def lstrip_def)
  qed
next
  assume "rstrip s = []"
  then show "strip s = []" by (simp add: strip_def lstrip_def)
qed

lemma strip_rstrip: "strip (rstrip s) = strip s"
  by (simp add: strip_def rstrip_idem)

lemma rstrip_chars_Cons:
  "rstrip_chars (c # s) chars
     = (if c \<in> set chars \<and> rstrip_chars s chars = [] then [] else c # rstrip_chars s chars)"
  by (simp add: rstrip_chars_def dropWhile_append)

lemma rstrip_chars_append:
  "x \<noteq> [] \<Longrightarrow> last x \<notin> set chars \<Longrightarrow> rstrip_chars (x @ t) chars = x @ rstrip_chars t chars"
proof -
  assume x: "x \<noteq> []" and l: "last x \<notin> set chars"
  from x l have "dropWhile (\<lambda>c. c \<in> set chars) (rev x) = rev x"
    by (cases "rev x") (auto simp: hd_rev [symmetric])
  then show ?thesis
    by (auto simp: rstrip_chars_def dropWhile_append dropWhile_eq_Nil_conv)
qed


lemma join_Cons: "join sep (x # ys) = x @ (if ys = [] then [] else sep @ join sep ys)"
  by (cases ys) auto

text \<open>The first line of a stored description is the first line of the message, right-trimmed.\<close>

lemma first_line_stripdesc:
  assumes "splitlines m = l # ls" and "rstrip l \<noteq> []"
  shows "first_line (stripdesc m) = Inr (rstrip l)"
proof -
  let ?x = "rstrip l"
  have "l \<in> set (splitlines m)" using assms(1) by simp
  then have "filter is_eol l = []" by (rule splitlines_no_eol)
  then have ne: "filter is_eol ?x = []" by (rule rstrip_no_eol)
  have lx: "last ?x \<in> set ?x" and hx: "hd ?x \<in> set ?x" using assms(2) by simp_all
  from ne lx have last: "last ?x \<notin> set [LF]" by (auto simp: filter_empty_conv is_eol_def)
  from ne hx have hd: "hd ?x \<noteq> LF" by (auto simp: filter_empty_conv is_eol_def)
  define t0 where "t0 = (if map rstrip ls = [] then [] else [LF] @ join [LF] (map rstrip ls))"
  define t1 where "t1 = rstrip_chars t0 [LF]"
  have j: "join [LF] (map rstrip (splitlines m)) = ?x @ t0"
    unfolding t0_def using assms(1) by (simp only: list.map join_Cons)
  have r: "rstrip_chars (?x @ t0) [LF] = ?x @ t1"
    unfolding t1_def by (rule rstrip_chars_append [OF assms(2) last])
  have "lstrip_chars (?x @ t1) [LF] = ?x @ t1"
    using assms(2) hd by (cases ?x) (auto simp: lstrip_chars_def)
  with j r have sd: "stripdesc m = ?x @ t1" by (simp add: stripdesc_def)
  have shape: "t1 = [] \<or> (\<exists>j. t1 = LF # j)"
  proof (cases "map rstrip ls = []")
    case True
    then have "t1 = []" unfolding t1_def t0_def by (simp add: rstrip_chars_def)
    then show ?thesis by simp
  next
    case False
    then have "t1 = rstrip_chars (LF # join [LF] (map rstrip ls)) [LF]"
      unfolding t1_def t0_def by simp
    then show ?thesis by (simp add: rstrip_chars_Cons)
  qed
  show ?thesis
  proof (cases "t1 = []")
    case True
    with sd splitlines_keep_single [OF ne assms(2)] chomp_id [OF ne] show ?thesis
      by (simp add: first_line_def splitlines_def)
  next
    case False
    with shape obtain j where "t1 = LF # j" by auto
    with sd splitlines_keep_no_eol [OF ne, of j] chomp_append_LF [OF ne, of "[]"] show ?thesis
      by (simp add: first_line_def splitlines_def)
  qed
qed

lemma splitlines_pop_patchmessage:
  assumes "filter is_eol n = []"
  shows "\<exists>ls. splitlines (pop_patchmessage n d) = (''DO NOT SUBMIT [PATCH] '' @ n) # ls"
  using first_line_pop [OF assms, of d] by (auto simp: first_line_def split: list.splits)

lemma stored_first_line:
  assumes "filter is_eol n = []"
  shows "first_line (stripdesc (pop_patchmessage n d))
           = Inr (if rstrip n = [] then ''DO NOT SUBMIT [PATCH]'' else ''DO NOT SUBMIT [PATCH] '' @ rstrip n)"
proof -
  from splitlines_pop_patchmessage [OF assms, of d] obtain ls
    where s: "splitlines (pop_patchmessage n d) = (''DO NOT SUBMIT [PATCH] '' @ n) # ls" by blast
  have p: "rstrip ''DO NOT SUBMIT [PATCH] '' = ''DO NOT SUBMIT [PATCH]''"
    by (simp add: rstrip_def is_space_def)
  have r: "rstrip (''DO NOT SUBMIT [PATCH] '' @ n)
             = (if rstrip n = [] then ''DO NOT SUBMIT [PATCH]'' else ''DO NOT SUBMIT [PATCH] '' @ rstrip n)"
    by (simp only: rstrip_append p)
  then have "rstrip (''DO NOT SUBMIT [PATCH] '' @ n) \<noteq> []" by (simp split: if_splits)
  from first_line_stripdesc [OF s this] r show ?thesis by simp
qed


text \<open>
  C10, as amended.  For every name that pop reads from the series file, the message
  it gives the commit of that patch, \<open>DO NOT SUBMIT [PATCH] \<close> and the name, then a
  blank line and the description when there is one, has as first line the prefix and
  the name; that line fully matches the Patch pattern, and group 2 of the match,
  trimmed, is the trimmed name.  The commit that the backend stores has the message
  with every line right-trimmed as its description: when the name holds a character
  that is not white space, the stored description classifies as a Patch commit whose
  name is the trimmed popped name; when the name is white space only, the stored
  first line is \<open>DO NOT SUBMIT [PATCH]\<close>, which the pattern rejects, and the commit
  is not a Patch commit.
\<close>

theorem pop_commit_is_patch:
  assumes "patchtopop \<in> set (series_patches origseries)"
  shows "first_line (pop_patchmessage patchtopop patchdesc) = Inr (''DO NOT SUBMIT [PATCH] '' @ patchtopop)
       \<and> patchdesc_fullmatch (''DO NOT SUBMIT [PATCH] '' @ patchtopop) = Some (Some ''DO NOT SUBMIT '', SP # patchtopop)
       \<and> isquahogpatch (pop_patchmessage patchtopop patchdesc) = Inr True
       \<and> patchnameof (pop_patchmessage patchtopop patchdesc) = Inr (strip patchtopop)
       \<and> (strip patchtopop \<noteq> [] \<longrightarrow>
             isquahogpatch (stripdesc (pop_patchmessage patchtopop patchdesc)) = Inr True
           \<and> patchnameof (stripdesc (pop_patchmessage patchtopop patchdesc)) = Inr (strip patchtopop))
       \<and> (strip patchtopop = [] \<longrightarrow>
             isquahogpatch (stripdesc (pop_patchmessage patchtopop patchdesc)) = Inr False)"
proof -
  have n: "filter is_eol patchtopop = []" using assms by (rule series_patches_no_eol)
  have sp: "strip (SP # patchtopop) = strip patchtopop"
    by (rule strip_space_Cons) (simp add: is_space_def)
  have msg: "first_line (pop_patchmessage patchtopop patchdesc) = Inr (''DO NOT SUBMIT [PATCH] '' @ patchtopop)
       \<and> patchdesc_fullmatch (''DO NOT SUBMIT [PATCH] '' @ patchtopop) = Some (Some ''DO NOT SUBMIT '', SP # patchtopop)
       \<and> isquahogpatch (pop_patchmessage patchtopop patchdesc) = Inr True
       \<and> patchnameof (pop_patchmessage patchtopop patchdesc) = Inr (strip patchtopop)"
    using first_line_pop [OF n, of patchdesc] patchdesc_fullmatch_pop [OF n] sp
    by (simp add: isquahogpatch_def patchnameof_def)
  have stored: "isquahogpatch (stripdesc (pop_patchmessage patchtopop patchdesc)) = Inr True
           \<and> patchnameof (stripdesc (pop_patchmessage patchtopop patchdesc)) = Inr (strip patchtopop)"
    if "strip patchtopop \<noteq> []"
  proof -
    from that have r: "rstrip patchtopop \<noteq> []" by (simp add: strip_empty_iff)
    have rn: "filter is_eol (rstrip patchtopop) = []" using n by (rule rstrip_no_eol)
    have "strip (SP # rstrip patchtopop) = strip patchtopop"
      using strip_space_Cons [of SP "rstrip patchtopop"] by (simp add: is_space_def strip_rstrip)
    with stored_first_line [OF n, of patchdesc] r patchdesc_fullmatch_pop [OF rn]
    show ?thesis by (simp add: isquahogpatch_def patchnameof_def)
  qed
  have blank: "isquahogpatch (stripdesc (pop_patchmessage patchtopop patchdesc)) = Inr False"
    if "strip patchtopop = []"
  proof -
    from that have r: "rstrip patchtopop = []" by (simp add: strip_empty_iff)
    have "patchdesc_fullmatch ''DO NOT SUBMIT [PATCH]'' = None"
      by (simp add: patchdesc_fullmatch_def lower_def is_space_def)
    with stored_first_line [OF n, of patchdesc] r show ?thesis
      by (simp add: isquahogpatch_def)
  qed
  from msg stored blank show ?thesis by blast
qed

theorem pop_commit_is_patch_witness:
  "''b.diff '' \<in> set (series_patches (''# s'' @ [LF] @ ''a.diff'' @ [LF] @ ''b.diff '' @ [LF]))
   \<and> isquahogpatch (pop_patchmessage ''b.diff '' ''why'') = Inr True
   \<and> patchnameof (pop_patchmessage ''b.diff '' ''why'') = Inr ''b.diff''
   \<and> isquahogpatch (stripdesc (pop_patchmessage ''b.diff '' ''why'')) = Inr True
   \<and> patchnameof (stripdesc (pop_patchmessage ''b.diff '' ''why'')) = Inr ''b.diff''"
proof -
  have h: "''b.diff '' \<in> set (series_patches (''# s'' @ [LF] @ ''a.diff'' @ [LF] @ ''b.diff '' @ [LF]))"
    by (simp add: series_patches_def splitlines_def chomp_def is_eol_def)
  have s: "strip ''b.diff '' = ''b.diff''"
    by (simp add: strip_def rstrip_def lstrip_def is_space_def)
  show ?thesis using h pop_commit_is_patch [OF h, of "''why''"] s by simp
qed

text \<open>
  C10 as stated fails for a name of white space only: a series line made of one
  space is an active name; the message for it matches the pattern, but the
  description stored for the commit is \<open>DO NOT SUBMIT [PATCH]\<close>, and the commit is not
  classified as a Patch commit.
\<close>

theorem pop_commit_blank_name:
  "[SP] \<in> set (series_patches ([SP] @ [LF]))
   \<and> isquahogpatch (pop_patchmessage [SP] []) = Inr True
   \<and> stripdesc (pop_patchmessage [SP] []) = ''DO NOT SUBMIT [PATCH]''
   \<and> isquahogpatch (stripdesc (pop_patchmessage [SP] [])) = Inr False"
  by code_simp

end
